theory Spec2Isabelle
  imports Main "HOL-Library.AList" "HOL-Library.Code_Target_Nat"
begin

section \<open>Python strings\<close>

text \<open>
  A Python \<open>str\<close> is a sequence of Unicode code points, so a string is a list of
  naturals. \<open>str\<close> turns an ASCII literal into such a string. File contents are kept
  as sequences of character codes too: the sidecar file is written and read in text mode,
  and the text codec is not modelled (reading returns the characters that were written;
  a string with a lone surrogate, which the codec of the real program refuses with
  UnicodeEncodeError, is written and printed here like any other).
\<close>

type_synonym pystr = "nat list"

definition str :: "string \<Rightarrow> pystr" where
  "str s = map of_char s"

definition TAB :: nat where "TAB = 9"
definition NL :: nat where "NL = 10"
definition CR :: nat where "CR = 13"
definition SLASH :: nat where "SLASH = 47"

text \<open>The code points for which \<open>str.isspace\<close> holds; \<open>str.rstrip()\<close> removes them.\<close>

definition is_space :: "nat \<Rightarrow> bool" where
  "is_space c = (c \<in> set [9, 10, 11, 12, 13, 28, 29, 30, 31, 32, 133, 160, 5760,
     8192, 8193, 8194, 8195, 8196, 8197, 8198, 8199, 8200, 8201, 8202,
     8232, 8233, 8239, 8287, 12288])"

definition rstrip :: "pystr \<Rightarrow> pystr" where
  "rstrip s = rev (dropWhile is_space (rev s))"

definition startswith :: "pystr \<Rightarrow> pystr \<Rightarrow> bool" where
  "startswith s pre = (take (length pre) s = pre)"

definition endswith :: "pystr \<Rightarrow> pystr \<Rightarrow> bool" where
  "endswith s suf = (length suf \<le> length s \<and> drop (length s - length suf) s = suf)"

text \<open>
  \<open>line.split("\t", maxsplit=1)\<close> unpacked into two names: the parts before and after
  the first tab, and no value (the unpacking raises ValueError) when the line has no tab.
\<close>

definition split_tab :: "pystr \<Rightarrow> (pystr \<times> pystr) option" where
  "split_tab line =
     (case dropWhile (\<lambda>c. c \<noteq> TAB) line of
        [] \<Rightarrow> None
      | _ # rest \<Rightarrow> Some (takeWhile (\<lambda>c. c \<noteq> TAB) line, rest))"

text \<open>
  Reading a text file translates \<open>\r\n\<close> and \<open>\r\<close> to \<open>\n\<close> (universal newlines);
  \<open>readlines\<close> then cuts after every \<open>\n\<close> and keeps it. Writing leaves
  \<open>\n\<close> as it is (the line separator of a POSIX system).
\<close>

fun translate_newlines :: "pystr \<Rightarrow> pystr" where
  "translate_newlines [] = []"
| "translate_newlines [c] = (if c = CR then [NL] else [c])"
| "translate_newlines (c # d # cs) =
     (if c = CR then (if d = NL then NL # translate_newlines cs
                      else NL # translate_newlines (d # cs))
      else c # translate_newlines (d # cs))"

fun lines_from :: "pystr \<Rightarrow> pystr \<Rightarrow> pystr list" where
  "lines_from cur [] = (if cur = [] then [] else [cur])"
| "lines_from cur (c # cs) =
     (if c = NL then (cur @ [NL]) # lines_from [] cs else lines_from (cur @ [c]) cs)"

definition readlines :: "pystr \<Rightarrow> pystr list" where
  "readlines content = lines_from [] (translate_newlines content)"

text \<open>\<open>" ".join(args)\<close>, as \<open>print\<close> joins its arguments.\<close>

fun join_with :: "pystr \<Rightarrow> pystr list \<Rightarrow> pystr" where
  "join_with sep [] = []"
| "join_with sep [x] = x"
| "join_with sep (x # y # ys) = x @ sep @ join_with sep (y # ys)"

text \<open>The decimal digits of a number, as an f-string formats \<open>len(...)\<close>.\<close>

function str_of_nat :: "nat \<Rightarrow> pystr" where
  "str_of_nat n = (if n < 10 then [48 + n] else str_of_nat (n div 10) @ [48 + n mod 10])"
  by pat_completeness auto
termination
  by (relation "measure (\<lambda>n. n)") auto

declare str_of_nat.simps [simp del]

section \<open>Paths (posixpath)\<close>

definition os_path_join :: "pystr \<Rightarrow> pystr \<Rightarrow> pystr" where
  "os_path_join a b =
     (if startswith b [SLASH] then b
      else if a = [] \<or> last a = SLASH then a @ b
      else a @ [SLASH] @ b)"

text \<open>
  \<open>os.path.split\<close>: the tail is what follows the last slash; the head is the rest,
  without its trailing slashes unless it consists of slashes only.
\<close>

definition os_path_split :: "pystr \<Rightarrow> pystr \<times> pystr" where
  "os_path_split p =
     (let tail = rev (takeWhile (\<lambda>c. c \<noteq> SLASH) (rev p));
          head = rev (dropWhile (\<lambda>c. c \<noteq> SLASH) (rev p))
      in if head \<noteq> [] \<and> head \<noteq> replicate (length head) SLASH
         then (rev (dropWhile (\<lambda>c. c = SLASH) (rev head)), tail)
         else (head, tail))"

text \<open>The components of a path: \<open>p.split("/")\<close>.\<close>

fun split_slash :: "pystr \<Rightarrow> pystr list" where
  "split_slash [] = [[]]"
| "split_slash (c # cs) =
     (if c = SLASH then [] # split_slash cs
      else (case split_slash cs of [] \<Rightarrow> [[c]] | x # xs \<Rightarrow> (c # x) # xs))"

text \<open>
  Path resolution is lexical (the model has no symbolic links): empty and \<open>.\<close>
  components are skipped, \<open>..\<close> steps to the parent, and every path, absolute or
  relative, starts at the root, which is the working directory of the process.
  The empty path names nothing. Being lexical, the resolution does not ask that the
  directories on the way exist: a path through a missing directory followed by \<open>..\<close>
  resolves here, where the operating system raises FileNotFoundError.
\<close>

definition path_step :: "pystr list \<Rightarrow> pystr \<Rightarrow> pystr list" where
  "path_step stack c =
     (if c = [] \<or> c = str ''.'' then stack
      else if c = str ''..'' then butlast stack
      else stack @ [c])"

definition resolve :: "pystr \<Rightarrow> pystr list option" where
  "resolve p = (if p = [] then None else Some (foldl path_step [] (split_slash p)))"

section \<open>The file system\<close>

text \<open>
  The file system maps the resolved path of every file and directory to its node; the
  root (the empty component list) is a directory that always exists. The list order is
  the order in which the system enumerates the entries. Permissions and special files
  are not modelled: a regular file that exists can be read and replaced.
\<close>

datatype node = File pystr | Dir

type_synonym fs = "(pystr list \<times> node) list"

datatype error =
    ValueError | KeyError | IndexError | NameError
  | FileNotFoundError | FileExistsError | NotADirectoryError | IsADirectoryError
  | SameFileError | SystemExit nat

datatype 'a result = Ok 'a | Raise error

definition lookup :: "fs \<Rightarrow> pystr list \<Rightarrow> node option" where
  "lookup t k = (if k = [] then Some Dir else map_of t k)"

definition os_path_exists :: "fs \<Rightarrow> pystr \<Rightarrow> bool" where
  "os_path_exists t p =
     (case resolve p of None \<Rightarrow> False | Some k \<Rightarrow> lookup t k \<noteq> None)"

definition os_path_isdir :: "fs \<Rightarrow> pystr \<Rightarrow> bool" where
  "os_path_isdir t p =
     (case resolve p of None \<Rightarrow> False | Some k \<Rightarrow> lookup t k = Some Dir)"

text \<open>\<open>open(p, "r")\<close> or \<open>open(p, "rb")\<close> followed by reading the whole file.\<close>

definition open_read :: "fs \<Rightarrow> pystr \<Rightarrow> error + pystr" where
  "open_read t p =
     (case resolve p of
        None \<Rightarrow> Inl FileNotFoundError
      | Some k \<Rightarrow>
          (case lookup t k of
             None \<Rightarrow> Inl FileNotFoundError
           | Some Dir \<Rightarrow> Inl IsADirectoryError
           | Some (File content) \<Rightarrow> Inr content))"

text \<open>
  \<open>open(p, "w")\<close>, writing \<open>content\<close> and closing: the file is created or replaced;
  its directory must exist.
\<close>

definition open_write :: "fs \<Rightarrow> pystr \<Rightarrow> pystr \<Rightarrow> error + fs" where
  "open_write t p content =
     (case resolve p of
        None \<Rightarrow> Inl FileNotFoundError
      | Some k \<Rightarrow>
          if lookup t k = Some Dir then Inl IsADirectoryError
          else (case lookup t (butlast k) of
                  None \<Rightarrow> Inl FileNotFoundError
                | Some (File _) \<Rightarrow> Inl NotADirectoryError
                | Some Dir \<Rightarrow> Inr (AList.update k (File content) t)))"

definition os_mkdir :: "fs \<Rightarrow> pystr \<Rightarrow> error + fs" where
  "os_mkdir t p =
     (case resolve p of
        None \<Rightarrow> Inl FileNotFoundError
      | Some k \<Rightarrow>
          if lookup t k \<noteq> None then Inl FileExistsError
          else (case lookup t (butlast k) of
                  None \<Rightarrow> Inl FileNotFoundError
                | Some (File _) \<Rightarrow> Inl NotADirectoryError
                | Some Dir \<Rightarrow> Inr (AList.update k Dir t)))"

text \<open>
  \<open>shutil.copy2(src, dst)\<close>: a destination that is a directory receives the file under
  the source's base name; copying a file onto itself raises; the metadata that
  \<open>copy2\<close> also copies is not part of the model.
\<close>

definition shutil_copy2 :: "fs \<Rightarrow> pystr \<Rightarrow> pystr \<Rightarrow> error + fs" where
  "shutil_copy2 t src dst =
     (let dst' = (if os_path_isdir t dst then os_path_join dst (snd (os_path_split src))
                  else dst)
      in if os_path_exists t src \<and> resolve src = resolve dst' then Inl SameFileError
         else (case open_read t src of
                 Inl e \<Rightarrow> Inl e
               | Inr content \<Rightarrow> open_write t dst' content))"

section \<open>Hashing\<close>

text \<open>
  \<open>hashlib.sha1\<close> is a library function: it is a parameter \<open>sha1\<close> of the model,
  from the bytes hashed to the 160-bit digest as a number. \<open>hexdigest\<close> writes the
  digest as 40 lowercase hexadecimal digits. The hash object is modelled by the bytes it
  has been fed: \<open>update\<close> appends a chunk.
\<close>

definition hexchar :: "nat \<Rightarrow> nat" where
  "hexchar d = (if d < 10 then 48 + d else 87 + d)"

fun hex_digits :: "nat \<Rightarrow> nat \<Rightarrow> pystr" where
  "hex_digits 0 n = []"
| "hex_digits (Suc k) n = hex_digits k (n div 16) @ [hexchar (n mod 16)]"

definition hexdigest :: "nat \<Rightarrow> pystr" where
  "hexdigest n = hex_digits 40 n"

text \<open>
  The loop of lines 100 to 104: read a chunk of at most \<open>1025 * 1024\<close> bytes, feed it
  to the hash, stop after the empty chunk.
\<close>

function read_chunks :: "pystr \<Rightarrow> pystr \<Rightarrow> pystr" where
  "read_chunks hashed rest =
     (let chunk = take (1025 * 1024) rest;
          hashed' = hashed @ chunk
      in if length chunk = 0 then hashed' else read_chunks hashed' (drop (1025 * 1024) rest))"
  by pat_completeness auto
termination
  by (relation "measure (\<lambda>(hashed, rest). length rest)") auto

declare read_chunks.simps [simp del]

definition hash_file :: "(pystr \<Rightarrow> nat) \<Rightarrow> fs \<Rightarrow> pystr \<Rightarrow> error + pystr" where
  "hash_file sha1 t file =
     (case open_read t file of
        Inl e \<Rightarrow> Inl e
      | Inr content \<Rightarrow> Inr (hexdigest (sha1 (read_chunks [] content))))"

section \<open>The program state\<close>

text \<open>
  The program acts on the file system and prints to standard output; \<open>stdout\<close> holds
  the text of each \<open>print\<close> call in order. The progress bar of \<open>tqdm\<close> goes to standard
  error and does not change what the loop iterates over: it is left out. A function that
  can raise returns \<open>Raise e\<close> together with the state at the time of the exception.
\<close>

record world =
  files :: fs
  stdout :: "pystr list"

definition py_print :: "pystr list \<Rightarrow> world \<Rightarrow> world" where
  "py_print args w = w\<lparr>stdout := stdout w @ [join_with (str '' '') args]\<rparr>"

text \<open>
  A hash database is a Python dict from file name to digest: a list of pairs with
  distinct keys in insertion order; \<open>d[k] = v\<close> is \<open>AList.update k v d\<close> and
  \<open>del d[k]\<close> is \<open>AList.delete k d\<close>.
\<close>

type_synonym hashdb = "(pystr \<times> pystr) list"

record diff =
  db :: hashdb
  deletions :: "pystr list"
  additions :: "(pystr \<times> pystr) list"
  changes :: "(pystr \<times> pystr) list"

section \<open>freeze.py\<close>

definition is_dirty :: "diff \<Rightarrow> bool" where
  "is_dirty data =
     (if length (additions data) > 0 then True
      else if length (deletions data) > 0 then True
      else if length (changes data) > 0 then True
      else False)"

text \<open>The line that \<open>write_db\<close> writes for one entry, and the text of the whole file.\<close>

definition db_line :: "pystr \<times> pystr \<Rightarrow> pystr" where
  "db_line entry = (case entry of (filename, filehash) \<Rightarrow> filehash @ [TAB] @ filename @ [NL])"

definition db_text :: "hashdb \<Rightarrow> pystr" where
  "db_text hashdb = concat (map db_line hashdb)"

definition write_db :: "pystr \<Rightarrow> hashdb \<Rightarrow> world \<Rightarrow> unit result \<times> world" where
  "write_db sumfile hashdb w =
     (case open_write (files w) sumfile (db_text hashdb) of
        Inl e \<Rightarrow> (Raise e, w)
      | Inr t \<Rightarrow> (Ok (), w\<lparr>files := t\<rparr>))"

text \<open>
  \<open>make_parents\<close>: the loop of lines 37 to 39 makes the directory of the file, then
  goes on with that directory's own directory. It ends because a directory that
  \<open>os.mkdir\<close> could make has a name with a component in it, and its head is shorter.
  When \<open>os.mkdir\<close> raises, the directories made before stay: the function returns
  the file system with the error.
\<close>

lemma split_slash_all_slashes: "set p \<subseteq> {SLASH} \<Longrightarrow> set (split_slash p) \<subseteq> {[]}"
  by (induction p) (auto split: list.splits)

lemma foldl_path_step_empty: "set cs \<subseteq> {[]} \<Longrightarrow> foldl path_step s cs = s"
  by (induction cs arbitrary: s) (auto simp: path_step_def)

lemma resolve_all_slashes: "set p \<subseteq> {SLASH} \<Longrightarrow> resolve p = Some k \<Longrightarrow> k = []"
  using foldl_path_step_empty[OF split_slash_all_slashes, of p "[]"]
  by (auto simp: resolve_def split: if_splits)

lemma os_mkdir_resolve: "os_mkdir t p = Inr t' \<Longrightarrow> \<exists>k. resolve p = Some k \<and> k \<noteq> []"
  by (auto simp: os_mkdir_def lookup_def split: option.splits if_splits node.splits)

lemma split_head_shorter:
  assumes "\<not> set p \<subseteq> {SLASH}"
  shows "length (fst (os_path_split p)) < length p"
proof -
  let ?r = "rev p"
  let ?d = "dropWhile (\<lambda>c. c \<noteq> SLASH) ?r"
  let ?t = "takeWhile (\<lambda>c. c \<noteq> SLASH) ?r"
  have len: "length ?t + length ?d = length p"
    by (metis length_append length_rev takeWhile_dropWhile_id)
  have pne: "p \<noteq> []" using assms by auto
  show ?thesis
  proof (cases "?d = []")
    case True
    show ?thesis unfolding os_path_split_def Let_def True using pne by simp
  next
    case False
    then have hd: "hd ?d = SLASH" using hd_dropWhile[of "\<lambda>c. c \<noteq> SLASH" ?r] by auto
    show ?thesis
    proof (cases "rev ?d = replicate (length (rev ?d)) SLASH")
      case True
      have "?t \<noteq> []"
      proof
        assume "?t = []"
        then have "?d = ?r" by (metis append_Nil takeWhile_dropWhile_id)
        then have "p = replicate (length p) SLASH" using True by simp
        then have "set p \<subseteq> {SLASH}" by (metis set_replicate_conv_if empty_subsetI subset_refl)
        then show False using assms by simp
      qed
      then have "0 < length ?t" by blast
      then have "length ?d < length p" using len by linarith
      then show ?thesis unfolding os_path_split_def Let_def using True False by simp
    next
      case F2: False
      obtain ds where ds: "?d = SLASH # ds" using False hd by (cases ?d) auto
      have "length (dropWhile (\<lambda>c. c = SLASH) ?d) \<le> length ds"
        unfolding ds by (simp add: length_dropWhile_le)
      then have "length (dropWhile (\<lambda>c. c = SLASH) ?d) < length p" using len ds by simp
      then show ?thesis unfolding os_path_split_def Let_def using F2 False by simp
    qed
  qed
qed

lemma os_mkdir_head_shorter:
  "os_mkdir t p = Inr t' \<Longrightarrow> length (fst (os_path_split p)) < length p"
  using os_mkdir_resolve resolve_all_slashes split_head_shorter by blast

function make_parents_loop :: "pystr \<Rightarrow> fs \<Rightarrow> unit result \<times> fs" where
  "make_parents_loop directory t =
     (if os_path_exists t directory then (Ok (), t)
      else (case os_mkdir t directory of
              Inl e \<Rightarrow> (Raise e, t)
            | Inr t' \<Rightarrow> make_parents_loop (fst (os_path_split directory)) t'))"
  by pat_completeness auto
termination
  by (relation "measure (\<lambda>(directory, t). length directory)")
     (auto simp: os_mkdir_head_shorter)

declare make_parents_loop.simps [simp del]

definition make_parents :: "pystr \<Rightarrow> fs \<Rightarrow> unit result \<times> fs" where
  "make_parents filepath t = make_parents_loop (fst (os_path_split filepath)) t"

fun load_lines :: "pystr list \<Rightarrow> hashdb \<Rightarrow> hashdb result" where
  "load_lines [] hashdb = Ok hashdb"
| "load_lines (line # rest) hashdb =
     (case split_tab (rstrip line) of
        None \<Rightarrow> Raise ValueError
      | Some (filehash, filename) \<Rightarrow> load_lines rest (AList.update filename filehash hashdb))"

definition load_db :: "pystr \<Rightarrow> world \<Rightarrow> hashdb result \<times> world" where
  "load_db sumfile w =
     (if os_path_exists (files w) sumfile then
        (let w1 = py_print [str ''Reading checksum db...''] w
         in case open_read (files w1) sumfile of
              Inl e \<Rightarrow> (Raise e, w1)
            | Inr content \<Rightarrow> (load_lines (readlines content) [], w1))
      else
        (let w1 = py_print [str ''Cant find checksum file at '', sumfile] w;
             w2 = py_print [str ''Warning, no checksums found, assuming zero known files!''] w1
         in (Ok [], w2)))"

text \<open>
  \<open>os.walk\<close>: the regular files below \<open>directory\<close>, each as the list of names that
  leads from \<open>directory\<close> to it; nothing when \<open>directory\<close> is not a directory.
  Joined by slashes these names are the path \<open>os.path.relpath\<close> computes at line 84
  from \<open>os.path.join(root, file)\<close>. \<open>tracked_name\<close> is the filter of line 82 on the
  file's own name; the set \<open>filelist\<close> is a list without duplicates, iterated
  in the order of the walk (no statement below depends on that order).
\<close>

definition walk_files :: "fs \<Rightarrow> pystr \<Rightarrow> pystr list list" where
  "walk_files t directory =
     (case resolve directory of
        None \<Rightarrow> []
      | Some d \<Rightarrow>
          if lookup t d = Some Dir
          then map (\<lambda>(k, n). drop (length d) k)
                 (filter (\<lambda>(k, n). n \<noteq> Dir \<and> length d < length k \<and> take (length d) k = d) t)
          else [])"

definition tracked_name :: "pystr \<Rightarrow> bool" where
  "tracked_name file =
     (\<not> endswith file (str ''.sha1sums'') \<and> \<not> endswith file (str ''.sha1sums_new''))"

definition filelist_of :: "fs \<Rightarrow> pystr \<Rightarrow> pystr list" where
  "filelist_of t directory =
     remdups (map (join_with [SLASH])
                (filter (\<lambda>rel. tracked_name (last rel)) (walk_files t directory)))"

text \<open>The loop of lines 95 to 112 over the file list, with the two lists it appends to.\<close>

fun check_files ::
  "(pystr \<Rightarrow> nat) \<Rightarrow> fs \<Rightarrow> pystr \<Rightarrow> hashdb \<Rightarrow> pystr list \<Rightarrow>
   (pystr \<times> pystr) list \<times> (pystr \<times> pystr) list \<Rightarrow>
   error + ((pystr \<times> pystr) list \<times> (pystr \<times> pystr) list)" where
  "check_files sha1 t directory hashdb [] (adds, chgs) = Inr (adds, chgs)"
| "check_files sha1 t directory hashdb (fileref # rest) (adds, chgs) =
     (case hash_file sha1 t (os_path_join directory fileref) of
        Inl e \<Rightarrow> Inl e
      | Inr filehash \<Rightarrow>
          (case map_of hashdb fileref of
             Some h \<Rightarrow>
               if h \<noteq> filehash
               then check_files sha1 t directory hashdb rest (adds, chgs @ [(fileref, filehash)])
               else check_files sha1 t directory hashdb rest (adds, chgs)
           | None \<Rightarrow>
               check_files sha1 t directory hashdb rest (adds @ [(fileref, filehash)], chgs)))"

definition check :: "(pystr \<Rightarrow> nat) \<Rightarrow> pystr \<Rightarrow> bool \<Rightarrow> world \<Rightarrow> diff result \<times> world" where
  "check sha1 directory log w =
     (let sumfile = os_path_join directory (str ''.sha1sums'')
      in case load_db sumfile w of
           (Raise e, w1) \<Rightarrow> (Raise e, w1)
         | (Ok hashdb, w1) \<Rightarrow>
             (let w2 = (if log then py_print [str ''Getting filelist...''] w1 else w1);
                  filelist = filelist_of (files w2) directory;
                  w3 = (if log then py_print [str ''Computing hashes, please wait...''] w2
                        else w2)
              in case check_files sha1 (files w3) directory hashdb filelist ([], []) of
                   Inl e \<Rightarrow> (Raise e, w3)
                 | Inr (adds, chgs) \<Rightarrow>
                     (Ok \<lparr>db = hashdb,
                          deletions = filter (\<lambda>file. file \<notin> set filelist) (map fst hashdb),
                          additions = adds,
                          changes = chgs\<rparr>, w3)))"

text \<open>
  \<open>interactive_check\<close>. \<open>commit\<close> is the line that \<open>input\<close> returns; the prompt is
  printed like the other output. \<open>exit(0)\<close> raises \<open>SystemExit\<close>. The lookups
  \<open>hashdb[file]\<close> raise KeyError for a missing key, as does \<open>del hashdb[name]\<close>.
\<close>

definition print_additions :: "(pystr \<times> pystr) list \<Rightarrow> world \<Rightarrow> world" where
  "print_additions adds w =
     fold (\<lambda>(file, filehash) w'.
             py_print [[TAB], filehash] (py_print [[TAB], file] (py_print [str ''File added:''] w')))
       adds w"

fun print_changes :: "hashdb \<Rightarrow> (pystr \<times> pystr) list \<Rightarrow> world \<Rightarrow> unit result \<times> world" where
  "print_changes hashdb [] w = (Ok (), w)"
| "print_changes hashdb ((file, filehash) # rest) w =
     (let w1 = py_print [[TAB], file] (py_print [str ''File CHANGED:''] w)
      in case map_of hashdb file of
           None \<Rightarrow> (Raise KeyError, w1)
         | Some old \<Rightarrow> print_changes hashdb rest (py_print [[TAB], old, str ''->'', filehash] w1))"

fun print_deletions :: "hashdb \<Rightarrow> pystr list \<Rightarrow> world \<Rightarrow> unit result \<times> world" where
  "print_deletions hashdb [] w = (Ok (), w)"
| "print_deletions hashdb (file # rest) w =
     (let w1 = py_print [[TAB], file] (py_print [str ''File DELETED:''] w)
      in case map_of hashdb file of
           None \<Rightarrow> (Raise KeyError, w1)
         | Some old \<Rightarrow> print_deletions hashdb rest (py_print [[TAB], old] w1))"

fun del_keys :: "pystr list \<Rightarrow> hashdb \<Rightarrow> error + hashdb" where
  "del_keys [] hashdb = Inr hashdb"
| "del_keys (name # rest) hashdb =
     (if map_of hashdb name = None then Inl KeyError
      else del_keys rest (AList.delete name hashdb))"

definition set_keys :: "(pystr \<times> pystr) list \<Rightarrow> hashdb \<Rightarrow> hashdb" where
  "set_keys pairs hashdb = fold (\<lambda>(name, filehash). AList.update name filehash) pairs hashdb"

definition interactive_check ::
  "(pystr \<Rightarrow> nat) \<Rightarrow> pystr \<Rightarrow> pystr \<Rightarrow> world \<Rightarrow> unit result \<times> world" where
  "interactive_check sha1 directory commit w =
     (let sumfile = os_path_join directory (str ''.sha1sums'')
      in case check sha1 directory True w of
           (Raise e, w1) \<Rightarrow> (Raise e, w1)
         | (Ok results, w1) \<Rightarrow>
             (let w2 = py_print
                         [str_of_nat (length (additions results)) @ str '' Additions, ''
                          @ str_of_nat (length (deletions results)) @ str '' Deletions, ''
                          @ str_of_nat (length (changes results)) @ str '' Changes.''] w1;
                  w3 = print_additions (additions results) w2
              in case print_changes (db results) (changes results) w3 of
                   (Raise e, w4) \<Rightarrow> (Raise e, w4)
                 | (Ok u, w4) \<Rightarrow>
                     (case print_deletions (db results) (deletions results) w4 of
                        (Raise e, w5) \<Rightarrow> (Raise e, w5)
                      | (Ok u', w5) \<Rightarrow>
                          (let w6 = py_print
                                      [str ''* Please review changes, including checking if changed files are ok before commiting.''] w5;
                               w7 = py_print [str ''Commit changes [y/n]? ''] w6
                           in if \<not> (startswith commit (str ''y'') \<or> startswith commit (str ''Y''))
                              then (Raise (SystemExit 0), py_print [str ''Canceled.''] w7)
                              else (case del_keys (deletions results)
                                           (set_keys (changes results)
                                              (set_keys (additions results) (db results))) of
                                      Inl e \<Rightarrow> (Raise e, w7)
                                    | Inr hashdb \<Rightarrow> write_db sumfile hashdb w7)))))"

text \<open>
  \<open>replicate\<close>. \<open>newdsthash\<close> is the destination's dict itself, so the loop of lines
  147 to 165 reads and updates one dict. \<open>if dsthash\<close> and \<open>if not ...get(dstfile)\<close>
  test truthiness: a missing key and an empty digest both count as false.
\<close>

definition truthy :: "pystr option \<Rightarrow> bool" where
  "truthy v = (case v of None \<Rightarrow> False | Some s \<Rightarrow> s \<noteq> [])"

fun replicate_files ::
  "pystr \<Rightarrow> pystr \<Rightarrow> hashdb \<Rightarrow> pystr list \<Rightarrow> hashdb \<Rightarrow> world \<Rightarrow> hashdb result \<times> world" where
  "replicate_files src dst srcdb [] newdsthash w = (Ok newdsthash, w)"
| "replicate_files src dst srcdb (srcfile # rest) newdsthash w =
     (case map_of srcdb srcfile of
        None \<Rightarrow> (Raise KeyError, w)
      | Some srchash \<Rightarrow>
          (let dsthash = map_of newdsthash srcfile;
               srcpath = os_path_join src srcfile;
               dstpath = os_path_join dst srcfile
           in if truthy dsthash then
                (if dsthash \<noteq> Some srchash then
                   (let w1 = py_print [str ''File'', srcfile,
                                       str ''changed in src filesystem, replicating.''] w;
                        w2 = py_print [dstpath, str ''->'', srcpath] w1
                    in case shutil_copy2 (files w2) srcpath dstpath of
                         Inl e \<Rightarrow> (Raise e, w2)
                       | Inr t \<Rightarrow>
                           replicate_files src dst srcdb rest
                             (AList.update srcfile srchash newdsthash) (w2\<lparr>files := t\<rparr>))
                 else replicate_files src dst srcdb rest newdsthash w)
              else
                (let w1 = py_print [str ''File'', srcfile,
                                    str ''added in src filesystem, replicating.''] w;
                     w2 = py_print [dstpath, str ''->'', srcpath] w1
                 in case make_parents dstpath (files w2) of
                      (Raise e, t) \<Rightarrow> (Raise e, w2\<lparr>files := t\<rparr>)
                    | (Ok u, t) \<Rightarrow>
                        (case shutil_copy2 t srcpath dstpath of
                           Inl e \<Rightarrow> (Raise e, w2\<lparr>files := t\<rparr>)
                         | Inr t' \<Rightarrow>
                             replicate_files src dst srcdb rest
                               (AList.update srcfile srchash newdsthash) (w2\<lparr>files := t'\<rparr>)))))"

definition refusal :: "pystr \<Rightarrow> pystr" where
  "refusal dstfile =
     join_with (str '' '') [str ''* Refusing to automaticly delete '', dstfile, str '' in backup'']"

definition report_deletions :: "hashdb \<Rightarrow> hashdb \<Rightarrow> world \<Rightarrow> world" where
  "report_deletions srcdb newdsthash w =
     fold (\<lambda>dstfile w'.
             if \<not> truthy (map_of srcdb dstfile)
             then py_print [str ''* Refusing to automaticly delete '', dstfile, str '' in backup''] w'
             else w')
       (map fst newdsthash) w"

definition replicate_fs ::
  "(pystr \<Rightarrow> nat) \<Rightarrow> pystr \<Rightarrow> pystr \<Rightarrow> world \<Rightarrow> unit result \<times> world" where
  "replicate_fs sha1 src dst w =
     (let w0 = py_print [str ''Checking source '', src] w
      in case check sha1 src True w0 of
           (Raise e, w1) \<Rightarrow> (Raise e, w1)
         | (Ok srcdata, w1) \<Rightarrow>
             (let w2 = py_print [str ''Checking destination '', dst] w1
              in case check sha1 dst True w2 of
                   (Raise e, w3) \<Rightarrow> (Raise e, w3)
                 | (Ok dstdata, w3) \<Rightarrow>
                     if is_dirty srcdata then
                       (Ok (), py_print [str ''* Source filetree is dirty, please run an integrity check and review changes''] w3)
                     else if is_dirty dstdata then
                       (Ok (), py_print [str ''* Destination filetree is dirty, please run an integrity check and review changes, this likly indicates damage to the backup''] w3)
                     else
                       (case replicate_files src dst (db srcdata) (map fst (db srcdata))
                               (db dstdata) w3 of
                          (Raise e, w4) \<Rightarrow> (Raise e, w4)
                        | (Ok newdsthash, w4) \<Rightarrow>
                            write_db (os_path_join dst (str ''.sha1sums'')) newdsthash
                              (report_deletions (db srcdata) newdsthash w4))))"

text \<open>
  The script body. \<open>argv\<close> is \<open>sys.argv\<close>. In the last branch the argument of
  \<open>print\<close> names \<open>sumcommand\<close>, which is bound nowhere: evaluating it raises NameError
  before anything is printed. An exception that nothing catches ends the process with
  status 1, \<open>exit(n)\<close> with status \<open>n\<close>.
\<close>

definition usage :: "pystr list \<Rightarrow> world \<Rightarrow> unit result \<times> world" where
  "usage argv w =
     (case argv of
        [] \<Rightarrow> (Raise IndexError, w)
      | prog # _ \<Rightarrow>
          (Ok (), py_print [str ''Usage: '' @ prog @ str '' replicate [src] [dst]'']
                    (py_print [str ''Usage: '' @ prog @ str '' check [directory]''] w)))"

definition usage_exit :: "pystr list \<Rightarrow> world \<Rightarrow> unit result \<times> world" where
  "usage_exit argv w =
     (case usage argv w of
        (Raise e, w1) \<Rightarrow> (Raise e, w1)
      | (Ok u, w1) \<Rightarrow> (Raise (SystemExit 1), w1))"

definition main ::
  "(pystr \<Rightarrow> nat) \<Rightarrow> pystr list \<Rightarrow> pystr \<Rightarrow> world \<Rightarrow> unit result \<times> world" where
  "main sha1 argv commit w =
     (if length argv < 2 then usage_exit argv w
      else (let subcommand = argv ! 1
            in if subcommand = str ''check'' then
                 (if length argv < 3 then usage_exit argv w
                  else interactive_check sha1 (argv ! 2) commit w)
               else if subcommand = str ''replicate'' then
                 (if length argv < 4 then usage_exit argv w
                  else replicate_fs sha1 (argv ! 2) (argv ! 3) w)
               else (Raise NameError, w)))"

definition exit_status :: "unit result \<Rightarrow> nat" where
  "exit_status r = (case r of Ok u \<Rightarrow> 0 | Raise (SystemExit n) \<Rightarrow> n | Raise e \<Rightarrow> 1)"

section \<open>Notions used in the statements\<close>

text \<open>
  \<open>digest_of\<close> is the digest that line 105 computes for a path of the file list;
  \<open>new_files\<close>, \<open>changed_files\<close> and \<open>unchanged_files\<close> are the paths of a file list
  that a hash database does not know, knows with another digest, and knows with the
  same digest; \<open>readable\<close> says that every file of the list could be read and hashed.
\<close>

definition digest_of :: "(pystr \<Rightarrow> nat) \<Rightarrow> fs \<Rightarrow> pystr \<Rightarrow> pystr \<Rightarrow> pystr" where
  "digest_of sha1 t directory p =
     (case hash_file sha1 t (os_path_join directory p) of Inl e \<Rightarrow> [] | Inr h \<Rightarrow> h)"

definition new_files :: "(pystr \<Rightarrow> nat) \<Rightarrow> fs \<Rightarrow> pystr \<Rightarrow> hashdb \<Rightarrow> pystr list \<Rightarrow> (pystr \<times> pystr) list" where
  "new_files sha1 t directory hashdb filelist =
     map (\<lambda>p. (p, digest_of sha1 t directory p)) (filter (\<lambda>p. map_of hashdb p = None) filelist)"

definition changed_files :: "(pystr \<Rightarrow> nat) \<Rightarrow> fs \<Rightarrow> pystr \<Rightarrow> hashdb \<Rightarrow> pystr list \<Rightarrow> (pystr \<times> pystr) list" where
  "changed_files sha1 t directory hashdb filelist =
     map (\<lambda>p. (p, digest_of sha1 t directory p))
       (filter (\<lambda>p. map_of hashdb p \<noteq> None \<and> map_of hashdb p \<noteq> Some (digest_of sha1 t directory p)) filelist)"

definition readable :: "(pystr \<Rightarrow> nat) \<Rightarrow> fs \<Rightarrow> pystr \<Rightarrow> pystr list \<Rightarrow> bool" where
  "readable sha1 t directory filelist =
     list_all (\<lambda>p. hash_file sha1 t (os_path_join directory p) = Inr (digest_of sha1 t directory p)) filelist"

definition unchanged_files :: "(pystr \<Rightarrow> nat) \<Rightarrow> fs \<Rightarrow> pystr \<Rightarrow> hashdb \<Rightarrow> pystr list \<Rightarrow> pystr list" where
  "unchanged_files sha1 t directory hashdb filelist =
     filter (\<lambda>p. map_of hashdb p = Some (digest_of sha1 t directory p)) filelist"

text \<open>
  \<open>gates_pass\<close>: both checks of \<open>replicate\<close> return a diff and neither tree is
  dirty, so that \<open>replicate\<close> goes past lines 137 to 143.
\<close>

definition gates_pass :: "(pystr \<Rightarrow> nat) \<Rightarrow> pystr \<Rightarrow> pystr \<Rightarrow> world \<Rightarrow> bool" where
  "gates_pass sha1 src dst w =
     (case fst (check sha1 src True w) of
        Raise e \<Rightarrow> False
      | Ok srcdata \<Rightarrow>
          (case fst (check sha1 dst True w) of
             Raise e \<Rightarrow> False
           | Ok dstdata \<Rightarrow> \<not> is_dirty srcdata \<and> \<not> is_dirty dstdata))"

text \<open>
  A key that survives a line of the sidecar file: not empty, without a line break, and
  not ending in a character that \<open>rstrip\<close> removes. A digest that survives: without
  a tab and without a line break, as every hexadecimal digest is.
\<close>

definition line_safe_key :: "pystr \<Rightarrow> bool" where
  "line_safe_key k = (k \<noteq> [] \<and> NL \<notin> set k \<and> CR \<notin> set k \<and> \<not> is_space (last k))"

definition line_safe_digest :: "pystr \<Rightarrow> bool" where
  "line_safe_digest v = (TAB \<notin> set v \<and> NL \<notin> set v \<and> CR \<notin> set v)"

text \<open>
  The names that a directory can hold: not empty, without a slash, and neither \<open>.\<close>
  nor \<open>..\<close>. In a well-formed file system every component of every path is one.
\<close>

definition valid_name :: "pystr \<Rightarrow> bool" where
  "valid_name n = (n \<noteq> [] \<and> SLASH \<notin> set n \<and> n \<noteq> str ''.'' \<and> n \<noteq> str ''..'')"

definition valid_fs :: "fs \<Rightarrow> bool" where
  "valid_fs t = list_all (\<lambda>(k, n). list_all valid_name k) t"

text \<open>
  \<open>within T t t'\<close>: outside the resolved paths \<open>T\<close>, the file system \<open>t'\<close>
  has what \<open>t\<close> has, and new directories. \<open>copy_keys src dst srcfile\<close> are the
  resolved paths on which the copy of the source path \<open>srcfile\<close> can land:
  \<open>dst/srcfile\<close>, and \<open>dst/srcfile/name\<close> with the base name of the source file,
  where \<open>shutil.copy2\<close> writes when \<open>dst/srcfile\<close> is a directory.
\<close>

definition within :: "pystr list set \<Rightarrow> fs \<Rightarrow> fs \<Rightarrow> bool" where
  "within T t t' =
     (\<forall>k. k \<notin> T \<longrightarrow> lookup t' k = lookup t k \<or> (lookup t k = None \<and> lookup t' k = Some Dir))"

definition copy_keys :: "pystr \<Rightarrow> pystr \<Rightarrow> pystr \<Rightarrow> pystr list set" where
  "copy_keys src dst srcfile =
     {k. resolve (os_path_join dst srcfile) = Some k
       \<or> resolve (os_path_join (os_path_join dst srcfile)
                     (snd (os_path_split (os_path_join src srcfile)))) = Some k}"

text \<open>
  \<open>needs_copy srcdb dstdb srcfile\<close>: the loop of \<open>replicate\<close> copies the source
  path, because the destination's digest of it is missing or empty (line 158) or differs
  from the source's (line 152).
\<close>

definition needs_copy :: "hashdb \<Rightarrow> hashdb \<Rightarrow> pystr \<Rightarrow> bool" where
  "needs_copy srcdb dstdb srcfile =
     (\<not> truthy (map_of dstdb srcfile) \<or> map_of dstdb srcfile \<noteq> map_of srcdb srcfile)"

text \<open>
  \<open>copy_lands_on src dst srcfile p\<close>: the path \<open>p\<close> names the place where the
  copy of the source path \<open>srcfile\<close> can land, that is, \<open>p\<close> resolves to what
  \<open>dst/srcfile\<close> resolves to, or to what \<open>dst/srcfile/name\<close> resolves to.
\<close>

definition copy_lands_on :: "pystr \<Rightarrow> pystr \<Rightarrow> pystr \<Rightarrow> pystr \<Rightarrow> bool" where
  "copy_lands_on src dst srcfile p =
     (resolve p = resolve (os_path_join dst srcfile)
      \<or> resolve p = resolve (os_path_join (os_path_join dst srcfile)
                                (snd (os_path_split (os_path_join src srcfile)))))"

text \<open>
  \<open>kept t t'\<close>: every regular file that can be read in \<open>t\<close> can be read in
  \<open>t'\<close>. \<open>checked_world\<close> is the state in which \<open>replicate\<close> enters its loop,
  after the two checks have printed.
\<close>

definition kept :: "fs \<Rightarrow> fs \<Rightarrow> bool" where
  "kept t t' = (\<forall>p c. open_read t p = Inr c \<longrightarrow> (\<exists>c'. open_read t' p = Inr c'))"

definition checked_world :: "(pystr \<Rightarrow> nat) \<Rightarrow> pystr \<Rightarrow> pystr \<Rightarrow> world \<Rightarrow> world" where
  "checked_world sha1 src dst w =
     snd (check sha1 dst True
            (py_print [str ''Checking destination '', dst]
               (snd (check sha1 src True (py_print [str ''Checking source '', src] w)))))"

section \<open>A concrete tree\<close>

text \<open>
  The concrete runs use \<open>sha1_ex\<close> in the place of SHA-1 (the theorems hold for every
  function). The tree \<open>d\<close> has a sidecar file that knows \<open>a.txt\<close> with its digest,
  \<open>c.txt\<close> with the digest of an older content and \<open>gone.txt\<close>, which is no longer
  there; \<open>b.txt\<close> is new, and \<open>sub/x.sha1sums\<close> has a name that the scan skips.
\<close>

definition sha1_ex :: "pystr \<Rightarrow> nat" where
  "sha1_ex bytes = sum_list bytes + 1000 * length bytes"

definition sidecar_ex :: pystr where
  "sidecar_ex =
     hexdigest (sha1_ex (str ''hello'')) @ [TAB] @ str ''a.txt'' @ [NL]
     @ hexdigest (sha1_ex (str ''old'')) @ [TAB] @ str ''c.txt'' @ [NL]
     @ hexdigest (sha1_ex (str ''bye'')) @ [TAB] @ str ''gone.txt'' @ [NL]"

definition tree_ex :: fs where
  "tree_ex =
     [([str ''d''], Dir),
      ([str ''d'', str ''.sha1sums''], File sidecar_ex),
      ([str ''d'', str ''a.txt''], File (str ''hello'')),
      ([str ''d'', str ''b.txt''], File (str ''new'')),
      ([str ''d'', str ''c.txt''], File (str ''changed'')),
      ([str ''d'', str ''sub''], Dir),
      ([str ''d'', str ''sub'', str ''x.sha1sums''], File (str ''stray''))]"

definition world_ex :: world where
  "world_ex = \<lparr>files = tree_ex, stdout = []\<rparr>"

definition db_ex :: hashdb where
  "db_ex = [(str ''a.txt'', hexdigest (sha1_ex (str ''hello''))),
            (str ''c.txt'', hexdigest (sha1_ex (str ''old''))),
            (str ''gone.txt'', hexdigest (sha1_ex (str ''bye'')))]"

definition diff_ex :: diff where
  "diff_ex =
     \<lparr>db = db_ex,
      deletions = [str ''gone.txt''],
      additions = [(str ''b.txt'', hexdigest (sha1_ex (str ''new'')))],
      changes = [(str ''c.txt'', hexdigest (sha1_ex (str ''changed'')))]\<rparr>"

definition clean_diff :: diff where
  "clean_diff = \<lparr>db = [], deletions = [], additions = [], changes = []\<rparr>"

text \<open>A file system with the empty directory \<open>d\<close> only.\<close>

definition dir_ex :: world where
  "dir_ex = \<lparr>files = [([str ''d''], Dir)], stdout = []\<rparr>"

text \<open>
  The directory \<open>d\<close> with one file whose name ends in a space, and the database
  that a commit on the concrete tree writes.
\<close>

definition space_ex :: world where
  "space_ex = \<lparr>files = [([str ''d''], Dir), ([str ''d'', str ''b ''], File (str ''x''))],
                stdout = []\<rparr>"

definition committed_ex :: hashdb where
  "committed_ex = [(str ''a.txt'', hexdigest (sha1_ex (str ''hello''))),
                   (str ''c.txt'', hexdigest (sha1_ex (str ''changed''))),
                   (str ''b.txt'', hexdigest (sha1_ex (str ''new'')))]"

text \<open>
  Two pairs of clean trees. In \<open>rep_ex\<close> the destination holds the source's file
  \<open>a.txt\<close> and a file \<open>z.txt\<close> of its own. In \<open>conflict_ex\<close> the source holds
  \<open>a/b\<close> and the destination a regular file \<open>a\<close>, so that \<open>dst/a/b\<close> cannot be
  created.
\<close>

definition rep_ex :: world where
  "rep_ex =
     \<lparr>files =
        [([str ''src''], Dir),
         ([str ''src'', str ''.sha1sums''],
            File (hexdigest (sha1_ex (str ''hello'')) @ [TAB] @ str ''a.txt'' @ [NL])),
         ([str ''src'', str ''a.txt''], File (str ''hello'')),
         ([str ''dst''], Dir),
         ([str ''dst'', str ''.sha1sums''],
            File (hexdigest (sha1_ex (str ''hello'')) @ [TAB] @ str ''a.txt'' @ [NL]
                  @ hexdigest (sha1_ex (str ''zed'')) @ [TAB] @ str ''z.txt'' @ [NL])),
         ([str ''dst'', str ''a.txt''], File (str ''hello'')),
         ([str ''dst'', str ''z.txt''], File (str ''zed''))],
      stdout = []\<rparr>"

definition srcdata_rep :: diff where
  "srcdata_rep = \<lparr>db = [(str ''a.txt'', hexdigest (sha1_ex (str ''hello'')))],
                   deletions = [], additions = [], changes = []\<rparr>"

definition dstdata_rep :: diff where
  "dstdata_rep = \<lparr>db = [(str ''a.txt'', hexdigest (sha1_ex (str ''hello''))),
                         (str ''z.txt'', hexdigest (sha1_ex (str ''zed'')))],
                   deletions = [], additions = [], changes = []\<rparr>"

definition conflict_ex :: world where
  "conflict_ex =
     \<lparr>files =
        [([str ''src''], Dir),
         ([str ''src'', str ''.sha1sums''],
            File (hexdigest (sha1_ex (str ''hello'')) @ [TAB] @ str ''a/b'' @ [NL])),
         ([str ''src'', str ''a''], Dir),
         ([str ''src'', str ''a'', str ''b''], File (str ''hello'')),
         ([str ''dst''], Dir),
         ([str ''dst'', str ''.sha1sums''],
            File (hexdigest (sha1_ex (str ''old'')) @ [TAB] @ str ''a'' @ [NL])),
         ([str ''dst'', str ''a''], File (str ''old''))],
      stdout = []\<rparr>"

definition srcdata_conflict :: diff where
  "srcdata_conflict = \<lparr>db = [(str ''a/b'', hexdigest (sha1_ex (str ''hello'')))],
                        deletions = [], additions = [], changes = []\<rparr>"

definition dstdata_conflict :: diff where
  "dstdata_conflict = \<lparr>db = [(str ''a'', hexdigest (sha1_ex (str ''old'')))],
                        deletions = [], additions = [], changes = []\<rparr>"

text \<open>
  A third pair of clean trees. In \<open>overwrite_ex\<close> the source holds the file \<open>a\<close>,
  and the destination a directory \<open>a\<close> with the tracked file \<open>a/a\<close> in it:
  \<open>shutil.copy2("src/a", "dst/a")\<close> writes \<open>dst/a/a\<close>. \<open>copied_ex\<close> is the file
  system after that copy.
\<close>

definition overwrite_ex :: world where
  "overwrite_ex =
     \<lparr>files =
        [([str ''src''], Dir),
         ([str ''src'', str ''.sha1sums''],
            File (hexdigest (sha1_ex (str ''hello'')) @ [TAB] @ str ''a'' @ [NL])),
         ([str ''src'', str ''a''], File (str ''hello'')),
         ([str ''dst''], Dir),
         ([str ''dst'', str ''.sha1sums''],
            File (hexdigest (sha1_ex (str ''zed'')) @ [TAB] @ str ''a/a'' @ [NL])),
         ([str ''dst'', str ''a''], Dir),
         ([str ''dst'', str ''a'', str ''a''], File (str ''zed''))],
      stdout = []\<rparr>"

definition srcdata_overwrite :: diff where
  "srcdata_overwrite = \<lparr>db = [(str ''a'', hexdigest (sha1_ex (str ''hello'')))],
                         deletions = [], additions = [], changes = []\<rparr>"

definition dstdata_overwrite :: diff where
  "dstdata_overwrite = \<lparr>db = [(str ''a/a'', hexdigest (sha1_ex (str ''zed'')))],
                         deletions = [], additions = [], changes = []\<rparr>"

definition copied_ex :: fs where
  "copied_ex = AList.update [str ''dst'', str ''a'', str ''a''] (File (str ''hello''))
                 (files overwrite_ex)"

text \<open>
  Two trees with a file \<open>x.sha1sums\<close>, which the scan skips. In \<open>listed_ex\<close> the
  sidecar file of \<open>d\<close> lists that file. In \<open>trailing_ex\<close> there is no sidecar file
  yet, and beside \<open>x.sha1sums\<close> there is a file whose name is \<open>x.sha1sums\<close> followed
  by a space. \<open>listed_diff\<close> and \<open>trailing_diff\<close> are the diffs that \<open>check\<close>
  returns, for the second tree after a commit.
\<close>

definition listed_ex :: world where
  "listed_ex =
     \<lparr>files =
        [([str ''d''], Dir),
         ([str ''d'', str ''.sha1sums''],
            File (hexdigest (sha1_ex (str ''stray'')) @ [TAB] @ str ''x.sha1sums'' @ [NL])),
         ([str ''d'', str ''x.sha1sums''], File (str ''stray''))],
      stdout = []\<rparr>"

definition listed_diff :: diff where
  "listed_diff = \<lparr>db = [(str ''x.sha1sums'', hexdigest (sha1_ex (str ''stray'')))],
                   deletions = [str ''x.sha1sums''], additions = [], changes = []\<rparr>"

definition trailing_ex :: world where
  "trailing_ex =
     \<lparr>files =
        [([str ''d''], Dir),
         ([str ''d'', str ''x.sha1sums ''], File (str ''x'')),
         ([str ''d'', str ''x.sha1sums''], File (str ''stray''))],
      stdout = []\<rparr>"

definition trailing_diff :: diff where
  "trailing_diff = \<lparr>db = [(str ''x.sha1sums'', hexdigest (sha1_ex (str ''x'')))],
                     deletions = [str ''x.sha1sums''],
                     additions = [(str ''x.sha1sums '', hexdigest (sha1_ex (str ''x'')))],
                     changes = []\<rparr>"

section \<open>Reading never writes\<close>

lemma files_py_print [simp]: "files (py_print args w) = files w"
  by (simp add: py_print_def)

lemma load_db_files: "files (snd (load_db sumfile w)) = files w"
  by (auto simp: load_db_def Let_def split: sum.splits)

lemma load_db_result: "files w = files v \<Longrightarrow> fst (load_db sumfile w) = fst (load_db sumfile v)"
  by (auto simp: load_db_def Let_def split: sum.splits)

lemma check_files_unchanged: "files (snd (check sha1 directory log w)) = files w"
  using load_db_files[of "os_path_join directory (str ''.sha1sums'')" w]
  by (auto simp: check_def Let_def split: prod.splits result.splits sum.splits)

lemma check_result_files_only:
  assumes "files w = files v"
  shows "fst (check sha1 directory log w) = fst (check sha1 directory log' v)"
  using load_db_files[of "os_path_join directory (str ''.sha1sums'')" w]
        load_db_files[of "os_path_join directory (str ''.sha1sums'')" v]
        load_db_result[OF assms, of "os_path_join directory (str ''.sha1sums'')"] assms
  by (auto simp: check_def Let_def split: prod.splits result.splits sum.splits)

section \<open>What the scan loop computes\<close>

lemma hash_file_digest_of:
  "hash_file sha1 t (os_path_join directory p) = Inr h \<Longrightarrow> digest_of sha1 t directory p = h"
  by (simp add: digest_of_def)

lemma check_files_Inr:
  "check_files sha1 t directory hashdb filelist (adds, chgs) = Inr (adds', chgs') \<Longrightarrow>
     adds' = adds @ new_files sha1 t directory hashdb filelist \<and>
     chgs' = chgs @ changed_files sha1 t directory hashdb filelist \<and>
     readable sha1 t directory filelist"
proof (induction filelist arbitrary: adds chgs)
  case Nil
  then show ?case by (simp add: new_files_def changed_files_def readable_def)
next
  case (Cons p ps)
  from Cons.prems obtain h where h: "hash_file sha1 t (os_path_join directory p) = Inr h"
    by (auto split: sum.splits)
  then have d: "digest_of sha1 t directory p = h" by (rule hash_file_digest_of)
  show ?case
  proof (cases "map_of hashdb p")
    case None
    with Cons.prems h have "check_files sha1 t directory hashdb ps (adds @ [(p, h)], chgs) = Inr (adds', chgs')"
      by simp
    from Cons.IH[OF this] show ?thesis using None h d
      by (simp add: new_files_def changed_files_def readable_def)
  next
    case (Some old)
    show ?thesis
    proof (cases "old = h")
      case True
      with Cons.prems h Some have "check_files sha1 t directory hashdb ps (adds, chgs) = Inr (adds', chgs')"
        by simp
      from Cons.IH[OF this] show ?thesis using Some True h d
        by (simp add: new_files_def changed_files_def readable_def)
    next
      case False
      with Cons.prems h Some have "check_files sha1 t directory hashdb ps (adds, chgs @ [(p, h)]) = Inr (adds', chgs')"
        by simp
      from Cons.IH[OF this] show ?thesis using Some False h d
        by (simp add: new_files_def changed_files_def readable_def)
    qed
  qed
qed

lemma check_files_readable:
  "readable sha1 t directory filelist \<Longrightarrow>
   check_files sha1 t directory hashdb filelist (adds, chgs) =
     Inr (adds @ new_files sha1 t directory hashdb filelist,
          chgs @ changed_files sha1 t directory hashdb filelist)"
proof (induction filelist arbitrary: adds chgs)
  case Nil
  then show ?case by (simp add: new_files_def changed_files_def)
next
  case (Cons p ps)
  then have h: "hash_file sha1 t (os_path_join directory p) = Inr (digest_of sha1 t directory p)"
    and r: "readable sha1 t directory ps" by (simp_all add: readable_def)
  show ?case using h Cons.IH[OF r]
    by (cases "map_of hashdb p") (auto simp: new_files_def changed_files_def)
qed

lemma check_Ok:
  assumes "check sha1 directory log w = (Ok r, w')"
  shows "fst (load_db (os_path_join directory (str ''.sha1sums'')) w) = Ok (db r)"
    and "additions r = new_files sha1 (files w) directory (db r) (filelist_of (files w) directory)"
    and "changes r = changed_files sha1 (files w) directory (db r) (filelist_of (files w) directory)"
    and "deletions r = filter (\<lambda>file. file \<notin> set (filelist_of (files w) directory)) (map fst (db r))"
    and "readable sha1 (files w) directory (filelist_of (files w) directory)"
    and "files w' = files w"
proof -
  let ?sumfile = "os_path_join directory (str ''.sha1sums'')"
  obtain res w1 where l: "load_db ?sumfile w = (res, w1)" by (cases "load_db ?sumfile w")
  have f1: "files w1 = files w" using load_db_files[of ?sumfile w] l by simp
  from assms l obtain hashdb where res: "res = Ok hashdb"
    by (cases res) (auto simp: check_def Let_def)
  from assms l res obtain adds chgs where
    cf: "check_files sha1 (files w) directory hashdb (filelist_of (files w) directory) ([], []) = Inr (adds, chgs)"
    and r: "r = \<lparr>db = hashdb,
                 deletions = filter (\<lambda>file. file \<notin> set (filelist_of (files w) directory)) (map fst hashdb),
                 additions = adds, changes = chgs\<rparr>"
    by (auto simp: check_def Let_def f1 split: sum.splits if_splits)
  note c = check_files_Inr[OF cf]
  show "fst (load_db ?sumfile w) = Ok (db r)" using l res r by simp
  show "additions r = new_files sha1 (files w) directory (db r) (filelist_of (files w) directory)"
    using c r by simp
  show "changes r = changed_files sha1 (files w) directory (db r) (filelist_of (files w) directory)"
    using c r by simp
  show "deletions r = filter (\<lambda>file. file \<notin> set (filelist_of (files w) directory)) (map fst (db r))"
    using r by simp
  show "readable sha1 (files w) directory (filelist_of (files w) directory)" using c by simp
  show "files w' = files w" using check_files_unchanged[of sha1 directory log w] assms by simp
qed

lemma distinct_filelist_of: "distinct (filelist_of t directory)"
  by (simp add: filelist_of_def)

lemma load_lines_distinct:
  "distinct (map fst hashdb) \<Longrightarrow> load_lines ls hashdb = Ok hashdb' \<Longrightarrow> distinct (map fst hashdb')"
proof (induction ls arbitrary: hashdb)
  case Nil
  then show ?case by simp
next
  case (Cons l ls)
  show ?case
  proof (cases "split_tab (rstrip l)")
    case None
    with Cons.prems(2) show ?thesis by simp
  next
    case (Some pair)
    obtain filehash filename where pair: "pair = (filehash, filename)" by (cases pair)
    from Cons.prems(2) Some pair
    have "load_lines ls (AList.update filename filehash hashdb) = Ok hashdb'" by simp
    moreover have "distinct (map fst (AList.update filename filehash hashdb))"
      using Cons.prems(1) by (rule distinct_update)
    ultimately show ?thesis by (rule Cons.IH[rotated])
  qed
qed

lemma load_db_distinct: "fst (load_db sumfile w) = Ok hashdb \<Longrightarrow> distinct (map fst hashdb)"
  using load_lines_distinct[of "[]"]
  by (auto simp: load_db_def Let_def split: if_splits sum.splits)

lemma fst_set_new_files:
  "fst ` set (new_files sha1 t directory hashdb fl) = {p \<in> set fl. map_of hashdb p = None}"
  by (auto simp: new_files_def image_iff)

lemma fst_set_changed_files:
  "fst ` set (changed_files sha1 t directory hashdb fl) =
     {p \<in> set fl. map_of hashdb p \<noteq> None \<and> map_of hashdb p \<noteq> Some (digest_of sha1 t directory p)}"
  by (auto simp: changed_files_def image_iff)

lemma map_fst_new_files:
  "map fst (new_files sha1 t directory hashdb fl) = filter (\<lambda>p. map_of hashdb p = None) fl"
  by (simp add: new_files_def comp_def)

lemma map_fst_changed_files:
  "map fst (changed_files sha1 t directory hashdb fl) =
     filter (\<lambda>p. map_of hashdb p \<noteq> None \<and> map_of hashdb p \<noteq> Some (digest_of sha1 t directory p)) fl"
  by (simp add: changed_files_def comp_def)

lemma check_ex:
  "check sha1_ex (str ''d'') False world_ex
     = (Ok diff_ex, py_print [str ''Reading checksum db...''] world_ex)"
  by code_simp

section \<open>The gates of replicate\<close>

lemma check_after_print:
  "fst (check sha1 directory log (py_print args w)) = fst (check sha1 directory log w)"
  by (rule check_result_files_only) simp

lemma replicate_fs_src_raises:
  assumes "fst (check sha1 src True w) = Raise e"
  shows "fst (replicate_fs sha1 src dst w) = Raise e"
    and "files (snd (replicate_fs sha1 src dst w)) = files w"
proof -
  let ?w0 = "py_print [str ''Checking source '', src] w"
  obtain r w1 where c: "check sha1 src True ?w0 = (r, w1)" by (cases "check sha1 src True ?w0")
  have r: "r = Raise e" using c assms check_after_print[of sha1 src True _ w] by (metis fst_conv)
  have f: "files w1 = files w" using check_files_unchanged[of sha1 src True ?w0] c by simp
  show "fst (replicate_fs sha1 src dst w) = Raise e" by (simp add: replicate_fs_def c r)
  show "files (snd (replicate_fs sha1 src dst w)) = files w" by (simp add: replicate_fs_def c r f)
qed

lemma replicate_fs_checked:
  assumes "fst (check sha1 src True w) = Ok srcdata"
  obtains w1 where "check sha1 src True (py_print [str ''Checking source '', src] w) = (Ok srcdata, w1)"
    and "files w1 = files w"
proof -
  let ?w0 = "py_print [str ''Checking source '', src] w"
  obtain r w1 where c: "check sha1 src True ?w0 = (r, w1)" by (cases "check sha1 src True ?w0")
  have r: "r = Ok srcdata" using c assms check_after_print[of sha1 src True _ w] by (metis fst_conv)
  have f: "files w1 = files w" using check_files_unchanged[of sha1 src True ?w0] c by simp
  show ?thesis using that c r f by simp
qed

lemma replicate_fs_checked_dst:
  assumes "fst (check sha1 dst True w) = r" and "files w1 = files w"
  obtains w3 where "check sha1 dst True (py_print [str ''Checking destination '', dst] w1) = (r, w3)"
    and "files w3 = files w"
proof -
  let ?w2 = "py_print [str ''Checking destination '', dst] w1"
  obtain r' w3 where c: "check sha1 dst True ?w2 = (r', w3)" by (cases "check sha1 dst True ?w2")
  have "files ?w2 = files w" using assms(2) by simp
  then have "fst (check sha1 dst True ?w2) = fst (check sha1 dst True w)"
    by (rule check_result_files_only)
  then have r: "r' = r" using c assms(1) by simp
  have f: "files w3 = files w" using check_files_unchanged[of sha1 dst True ?w2] c assms(2) by simp
  show ?thesis using that c r f by simp
qed

lemma replicate_fs_dst_raises:
  assumes "fst (check sha1 src True w) = Ok srcdata" and "fst (check sha1 dst True w) = Raise e"
  shows "fst (replicate_fs sha1 src dst w) = Raise e"
    and "files (snd (replicate_fs sha1 src dst w)) = files w"
proof -
  obtain w1 where c1: "check sha1 src True (py_print [str ''Checking source '', src] w) = (Ok srcdata, w1)"
    and f1: "files w1 = files w" using replicate_fs_checked[OF assms(1)] by blast
  obtain w3 where c3: "check sha1 dst True (py_print [str ''Checking destination '', dst] w1) = (Raise e, w3)"
    and f3: "files w3 = files w" using replicate_fs_checked_dst[OF assms(2) f1] by blast
  show "fst (replicate_fs sha1 src dst w) = Raise e" by (simp add: replicate_fs_def c1 c3)
  show "files (snd (replicate_fs sha1 src dst w)) = files w" by (simp add: replicate_fs_def c1 c3 f3)
qed

lemma replicate_fs_dirty:
  assumes "fst (check sha1 src True w) = Ok srcdata" and "fst (check sha1 dst True w) = Ok dstdata"
    and "is_dirty srcdata \<or> is_dirty dstdata"
  shows "fst (replicate_fs sha1 src dst w) = Ok ()"
    and "files (snd (replicate_fs sha1 src dst w)) = files w"
proof -
  obtain w1 where c1: "check sha1 src True (py_print [str ''Checking source '', src] w) = (Ok srcdata, w1)"
    and f1: "files w1 = files w" using replicate_fs_checked[OF assms(1)] by blast
  obtain w3 where c3: "check sha1 dst True (py_print [str ''Checking destination '', dst] w1) = (Ok dstdata, w3)"
    and f3: "files w3 = files w" using replicate_fs_checked_dst[OF assms(2) f1] by blast
  show "fst (replicate_fs sha1 src dst w) = Ok ()" using assms(3) by (auto simp: replicate_fs_def c1 c3)
  show "files (snd (replicate_fs sha1 src dst w)) = files w" using assms(3) by (auto simp: replicate_fs_def c1 c3 f3)
qed

lemma replicate_fs_clean:
  assumes "fst (check sha1 src True w) = Ok srcdata" and "fst (check sha1 dst True w) = Ok dstdata"
    and "\<not> is_dirty srcdata" and "\<not> is_dirty dstdata"
  obtains w3 where "files w3 = files w"
    and "replicate_fs sha1 src dst w =
          (case replicate_files src dst (db srcdata) (map fst (db srcdata)) (db dstdata) w3 of
             (Raise e, w4) \<Rightarrow> (Raise e, w4)
           | (Ok newdsthash, w4) \<Rightarrow>
               write_db (os_path_join dst (str ''.sha1sums'')) newdsthash
                 (report_deletions (db srcdata) newdsthash w4))"
proof -
  obtain w1 where c1: "check sha1 src True (py_print [str ''Checking source '', src] w) = (Ok srcdata, w1)"
    and f1: "files w1 = files w" using replicate_fs_checked[OF assms(1)] by blast
  obtain w3 where c3: "check sha1 dst True (py_print [str ''Checking destination '', dst] w1) = (Ok dstdata, w3)"
    and f3: "files w3 = files w" using replicate_fs_checked_dst[OF assms(2) f1] by blast
  show ?thesis using that[OF f3] assms(3,4) by (simp add: replicate_fs_def c1 c3)
qed

lemma replicate_fs_gates:
  assumes "\<not> gates_pass sha1 src dst w"
  shows "files (snd (replicate_fs sha1 src dst w)) = files w"
proof (cases "fst (check sha1 src True w)")
  case (Raise e)
  then show ?thesis by (rule replicate_fs_src_raises)
next
  case s: (Ok srcdata)
  show ?thesis
  proof (cases "fst (check sha1 dst True w)")
    case (Raise e)
    with s show ?thesis by (rule replicate_fs_dst_raises)
  next
    case d: (Ok dstdata)
    from assms s d have "is_dirty srcdata \<or> is_dirty dstdata" by (simp add: gates_pass_def)
    with s d show ?thesis by (rule replicate_fs_dirty)
  qed
qed

section \<open>The review before a commit\<close>

lemma files_print_additions [simp]: "files (print_additions adds w) = files w"
  unfolding print_additions_def
  by (induction adds arbitrary: w) (auto simp: case_prod_beta)

lemma files_print_changes: "files (snd (print_changes hashdb chgs w)) = files w"
proof (induction chgs arbitrary: w)
  case Nil
  show ?case by simp
next
  case (Cons c chgs)
  obtain f h where c: "c = (f, h)" by (cases c)
  show ?case unfolding c by (cases "map_of hashdb f") (simp_all add: Cons.IH Let_def)
qed

lemma files_print_deletions: "files (snd (print_deletions hashdb dels w)) = files w"
proof (induction dels arbitrary: w)
  case Nil
  show ?case by simp
next
  case (Cons f dels)
  show ?case by (cases "map_of hashdb f") (simp_all add: Cons.IH Let_def)
qed

lemma print_changes_Ok:
  "list_all (\<lambda>file. map_of hashdb file \<noteq> None) (map fst chgs) \<Longrightarrow>
   fst (print_changes hashdb chgs w) = Ok ()"
proof (induction chgs arbitrary: w)
  case Nil
  show ?case by simp
next
  case (Cons c chgs)
  obtain f h where c: "c = (f, h)" by (cases c)
  from Cons.prems c obtain old where old: "map_of hashdb f = Some old" by auto
  from Cons.prems have "list_all (\<lambda>file. map_of hashdb file \<noteq> None) (map fst chgs)" by simp
  then show ?case unfolding c by (simp add: old Cons.IH Let_def)
qed

lemma print_deletions_Ok:
  "list_all (\<lambda>file. map_of hashdb file \<noteq> None) dels \<Longrightarrow>
   fst (print_deletions hashdb dels w) = Ok ()"
proof (induction dels arbitrary: w)
  case Nil
  show ?case by simp
next
  case (Cons f dels)
  from Cons.prems obtain old where old: "map_of hashdb f = Some old" by auto
  from Cons.prems have "list_all (\<lambda>file. map_of hashdb file \<noteq> None) dels" by simp
  then show ?case by (simp add: old Cons.IH Let_def)
qed

lemma check_changes_known:
  assumes "check sha1 directory log w = (Ok r, w')"
  shows "list_all (\<lambda>file. map_of (db r) file \<noteq> None) (map fst (changes r))"
  unfolding check_Ok(3)[OF assms] map_fst_changed_files by (simp add: list_all_iff)

lemma check_deletions_known:
  assumes "check sha1 directory log w = (Ok r, w')"
  shows "list_all (\<lambda>file. map_of (db r) file \<noteq> None) (deletions r)"
  unfolding check_Ok(4)[OF assms] by (auto simp: list_all_iff map_of_eq_None_iff)

lemma interactive_check_prints:
  assumes "check sha1 directory True w = (Ok r, w1)"
  obtains w5 where "files w5 = files w"
    and "interactive_check sha1 directory commit w =
          (let w7 = py_print [str ''Commit changes [y/n]? '']
                      (py_print [str ''* Please review changes, including checking if changed files are ok before commiting.''] w5)
           in if \<not> (startswith commit (str ''y'') \<or> startswith commit (str ''Y''))
              then (Raise (SystemExit 0), py_print [str ''Canceled.''] w7)
              else (case del_keys (deletions r) (set_keys (changes r) (set_keys (additions r) (db r))) of
                      Inl e \<Rightarrow> (Raise e, w7)
                    | Inr hashdb \<Rightarrow> write_db (os_path_join directory (str ''.sha1sums'')) hashdb w7))"
proof -
  let ?w2 = "py_print
               [str_of_nat (length (additions r)) @ str '' Additions, ''
                @ str_of_nat (length (deletions r)) @ str '' Deletions, ''
                @ str_of_nat (length (changes r)) @ str '' Changes.''] w1"
  let ?w3 = "print_additions (additions r) ?w2"
  have f1: "files w1 = files w" using check_Ok(6)[OF assms] .
  obtain u w4 where p4: "print_changes (db r) (changes r) ?w3 = (u, w4)"
    by (cases "print_changes (db r) (changes r) ?w3")
  have u: "u = Ok ()" using print_changes_Ok[OF check_changes_known[OF assms], of ?w3] p4 by simp
  have f4: "files w4 = files w" using files_print_changes[of "db r" "changes r" ?w3] p4 f1 by simp
  obtain u' w5 where p5: "print_deletions (db r) (deletions r) w4 = (u', w5)"
    by (cases "print_deletions (db r) (deletions r) w4")
  have u': "u' = Ok ()" using print_deletions_Ok[OF check_deletions_known[OF assms], of w4] p5 by simp
  have f5: "files w5 = files w" using files_print_deletions[of "db r" "deletions r" w4] p5 f4 by simp
  show ?thesis
    by (rule that[OF f5]) (simp add: interactive_check_def assms p4 u p5 u' Let_def)
qed

lemma interactive_check_raises:
  assumes "check sha1 directory True w = (Raise e, w1)"
  shows "interactive_check sha1 directory commit w = (Raise e, w1)"
  by (simp add: interactive_check_def assms)

lemma interactive_check_canceled:
  assumes "check sha1 directory True w = (Ok r, w1)"
    and "\<not> (startswith commit (str ''y'') \<or> startswith commit (str ''Y''))"
  shows "fst (interactive_check sha1 directory commit w) = Raise (SystemExit 0)"
    and "files (snd (interactive_check sha1 directory commit w)) = files w"
    and "last (stdout (snd (interactive_check sha1 directory commit w))) = str ''Canceled.''"
proof -
  obtain w5 where f5: "files w5 = files w"
    and ic: "interactive_check sha1 directory commit w =
          (let w7 = py_print [str ''Commit changes [y/n]? '']
                      (py_print [str ''* Please review changes, including checking if changed files are ok before commiting.''] w5)
           in if \<not> (startswith commit (str ''y'') \<or> startswith commit (str ''Y''))
              then (Raise (SystemExit 0), py_print [str ''Canceled.''] w7)
              else (case del_keys (deletions r) (set_keys (changes r) (set_keys (additions r) (db r))) of
                      Inl e \<Rightarrow> (Raise e, w7)
                    | Inr hashdb \<Rightarrow> write_db (os_path_join directory (str ''.sha1sums'')) hashdb w7))"
    using interactive_check_prints[OF assms(1)] by blast
  show "fst (interactive_check sha1 directory commit w) = Raise (SystemExit 0)"
    unfolding ic using assms(2) by (simp add: Let_def)
  show "files (snd (interactive_check sha1 directory commit w)) = files w"
    unfolding ic using assms(2) f5 by (simp add: Let_def)
  show "last (stdout (snd (interactive_check sha1 directory commit w))) = str ''Canceled.''"
    unfolding ic using assms(2) by (simp add: Let_def py_print_def)
qed

section \<open>Names that the scan skips\<close>

lemma endswith_iff: "endswith s suf = (\<exists>p. s = p @ suf)"
proof
  assume "endswith s suf"
  then have "s = take (length s - length suf) s @ suf"
    by (metis append_take_drop_id endswith_def)
  then show "\<exists>p. s = p @ suf" by blast
next
  assume "\<exists>p. s = p @ suf"
  then show "endswith s suf" by (auto simp: endswith_def)
qed

lemma join_with_last:
  "rel \<noteq> [] \<Longrightarrow> \<exists>pre. join_with [SLASH] rel = pre @ last rel \<and> (pre = [] \<or> last pre = SLASH)"
proof (induction "[SLASH]" rel rule: join_with.induct)
  case 1
  then show ?case by simp
next
  case (2 x)
  show ?case by simp
next
  case (3 x y ys)
  then obtain pre where pre: "join_with [SLASH] (y # ys) = pre @ last (y # ys)"
    and sl: "pre = [] \<or> last pre = SLASH" by auto
  have "join_with [SLASH] (x # y # ys) = (x @ [SLASH] @ pre) @ last (x # y # ys)"
    using pre by simp
  moreover have "last (x @ [SLASH] @ pre) = SLASH" using sl by auto
  ultimately show ?case by blast
qed

lemma endswith_after_slash:
  assumes "SLASH \<notin> set suf" and "pre = [] \<or> last pre = SLASH"
  shows "endswith (pre @ x) suf = endswith x suf"
proof
  assume "endswith x suf"
  then obtain p where "x = p @ suf" using endswith_iff by blast
  then have "pre @ x = (pre @ p) @ suf" by simp
  then show "endswith (pre @ x) suf" using endswith_iff by blast
next
  assume "endswith (pre @ x) suf"
  then obtain p where p: "pre @ x = p @ suf" using endswith_iff by blast
  show "endswith x suf"
  proof (cases "length suf \<le> length x")
    case True
    from p have "drop (length (pre @ x) - length suf) (pre @ x) = suf" by simp
    then have "drop (length x - length suf) x = suf" using True by simp
    then show ?thesis using True by (simp add: endswith_def)
  next
    case False
    from p have "(\<exists>us. pre = p @ us \<and> us @ x = suf) \<or> (\<exists>us. pre @ us = p \<and> x = us @ suf)"
      by (auto simp: append_eq_append_conv2)
    moreover have "\<not> (\<exists>us. pre @ us = p \<and> x = us @ suf)" using False by auto
    ultimately obtain z where z: "pre = p @ z" "z @ x = suf" by blast
    have zne: "z \<noteq> []" using z(2) False by auto
    have "last z = SLASH" using z(1) zne assms(2) by auto
    then have "SLASH \<in> set z" using zne last_in_set by metis
    then have "SLASH \<in> set suf" using z(2) by auto
    then show ?thesis using assms(1) by simp
  qed
qed

lemma endswith_join_with:
  assumes "rel \<noteq> []" and "SLASH \<notin> set suf"
  shows "endswith (join_with [SLASH] rel) suf = endswith (last rel) suf"
  using join_with_last[OF assms(1)] endswith_after_slash[OF assms(2)] by metis

lemma tracked_name_join_with:
  assumes "rel \<noteq> []"
  shows "tracked_name (join_with [SLASH] rel) = tracked_name (last rel)"
proof -
  have "SLASH \<notin> set (str ''.sha1sums'')" and "SLASH \<notin> set (str ''.sha1sums_new'')"
    by (simp_all add: str_def SLASH_def)
  then show ?thesis unfolding tracked_name_def using endswith_join_with[OF assms] by simp
qed

lemma walk_files_nonempty: "rel \<in> set (walk_files t directory) \<Longrightarrow> rel \<noteq> []"
  by (auto simp: walk_files_def split: option.splits if_splits)

lemma filelist_of_tracked: "p \<in> set (filelist_of t directory) \<Longrightarrow> tracked_name p"
  using walk_files_nonempty tracked_name_join_with by (auto simp: filelist_of_def)

section \<open>Resolving the paths of the scan\<close>

lemma split_slash_nonempty: "split_slash p \<noteq> []"
  by (induction p) (auto split: list.splits)

lemma split_slash_append: "split_slash (a @ SLASH # b) = split_slash a @ split_slash b"
proof (induction a)
  case Nil
  show ?case by simp
next
  case (Cons c a)
  obtain x xs where x: "split_slash a = x # xs" using split_slash_nonempty[of a] by (cases "split_slash a") auto
  show ?case using Cons x by simp
qed

lemma split_slash_name: "SLASH \<notin> set n \<Longrightarrow> split_slash n = [n]"
  by (induction n) auto

lemma split_slash_join_with:
  "rel \<noteq> [] \<Longrightarrow> list_all (\<lambda>n. SLASH \<notin> set n) rel \<Longrightarrow> split_slash (join_with [SLASH] rel) = rel"
proof (induction "[SLASH]" rel rule: join_with.induct)
  case 1
  then show ?case by simp
next
  case (2 x)
  then show ?case by (simp add: split_slash_name)
next
  case (3 x y ys)
  have "split_slash (join_with [SLASH] (x # y # ys)) = split_slash x @ split_slash (join_with [SLASH] (y # ys))"
    using split_slash_append[of x "join_with [SLASH] (y # ys)"] by simp
  then show ?case using 3 by (simp add: split_slash_name)
qed

lemma foldl_path_step_valid:
  "list_all valid_name rel \<Longrightarrow> foldl path_step s rel = s @ rel"
  by (induction rel arbitrary: s) (auto simp: path_step_def valid_name_def)

lemma join_with_not_absolute:
  assumes "rel \<noteq> []" and "list_all valid_name rel"
  shows "\<not> startswith (join_with [SLASH] rel) [SLASH]"
proof -
  obtain x xs where rel: "rel = x # xs" using assms(1) by (cases rel) auto
  then have vx: "valid_name x" using assms(2) by simp
  then obtain c cs where x: "x = c # cs" and c: "c \<noteq> SLASH"
    by (cases x) (auto simp: valid_name_def)
  have "\<exists>rest. join_with [SLASH] rel = c # rest" unfolding rel x by (cases xs) auto
  then show ?thesis using c by (auto simp: startswith_def)
qed

lemma resolve_join:
  assumes "resolve directory = Some d" and "rel \<noteq> []" and "list_all valid_name rel"
  shows "resolve (os_path_join directory (join_with [SLASH] rel)) = Some (d @ rel)"
proof -
  let ?p = "join_with [SLASH] rel"
  have dne: "directory \<noteq> []" using assms(1) by (auto simp: resolve_def)
  have d: "d = foldl path_step [] (split_slash directory)" using assms(1) dne by (simp add: resolve_def)
  have ns: "list_all (\<lambda>n. SLASH \<notin> set n) rel"
    using assms(3) by (auto simp: list_all_iff valid_name_def)
  have sp: "split_slash ?p = rel" using split_slash_join_with[OF assms(2) ns] .
  have na: "\<not> startswith ?p [SLASH]" using join_with_not_absolute[OF assms(2,3)] .
  show ?thesis
  proof (cases "last directory = SLASH")
    case True
    then obtain dir' where dir': "directory = dir' @ [SLASH]" using dne by (metis append_butlast_last_id)
    have j: "os_path_join directory ?p = dir' @ SLASH # ?p" using na True dir' by (simp add: os_path_join_def)
    have "split_slash directory = split_slash dir' @ [[]]"
      unfolding dir' using split_slash_append[of dir' "[]"] by simp
    then have d': "d = foldl path_step [] (split_slash dir')" using d by (simp add: path_step_def)
    have "foldl path_step [] (split_slash (dir' @ SLASH # ?p)) = d @ rel"
      by (simp add: split_slash_append sp d' foldl_path_step_valid[OF assms(3)])
    then show ?thesis unfolding j by (simp add: resolve_def)
  next
    case False
    have j: "os_path_join directory ?p = directory @ SLASH # ?p"
      using na False dne by (simp add: os_path_join_def)
    have "foldl path_step [] (split_slash (directory @ SLASH # ?p)) = d @ rel"
      by (simp add: split_slash_append sp d foldl_path_step_valid[OF assms(3)])
    then show ?thesis unfolding j by (simp add: resolve_def)
  qed
qed

lemma valid_name_sidecar: "valid_name (str ''.sha1sums'')"
  by (simp add: valid_name_def str_def SLASH_def)

lemma resolve_sumfile:
  assumes "resolve directory = Some d"
  shows "resolve (os_path_join directory (str ''.sha1sums'')) = Some (d @ [str ''.sha1sums''])"
  using resolve_join[OF assms, of "[str ''.sha1sums'']"] valid_name_sidecar by simp

section \<open>Writing the sidecar file and reading it back\<close>

lemma translate_newlines_id: "CR \<notin> set s \<Longrightarrow> translate_newlines s = s"
  by (induction s rule: translate_newlines.induct) auto

lemma lines_from_line:
  "NL \<notin> set l \<Longrightarrow> lines_from cur (l @ NL # rest) = (cur @ l @ [NL]) # lines_from [] rest"
  by (induction l arbitrary: cur) auto

lemma lines_from_db_text:
  assumes "list_all (\<lambda>(k, v). NL \<notin> set k \<and> NL \<notin> set v) hashdb"
  shows "lines_from [] (db_text hashdb) = map db_line hashdb"
  using assms
proof (induction hashdb)
  case Nil
  show ?case by (simp add: db_text_def)
next
  case (Cons e hashdb)
  obtain k v where e: "e = (k, v)" by (cases e)
  have nl: "NL \<notin> set (v @ [TAB] @ k)" using Cons.prems e by (simp add: NL_def TAB_def)
  have "db_text (e # hashdb) = (v @ [TAB] @ k) @ NL # db_text hashdb"
    by (simp add: db_text_def db_line_def e)
  then have "lines_from [] (db_text (e # hashdb))
               = ([] @ (v @ [TAB] @ k) @ [NL]) # lines_from [] (db_text hashdb)"
    using lines_from_line[OF nl] by simp
  then show ?case using Cons by (simp add: db_line_def e)
qed

lemma CR_notin_db_text:
  assumes "list_all (\<lambda>(k, v). CR \<notin> set k \<and> CR \<notin> set v) hashdb"
  shows "CR \<notin> set (db_text hashdb)"
  using assms
proof (induction hashdb)
  case Nil
  show ?case by (simp add: db_text_def)
next
  case (Cons e hashdb)
  obtain k v where e: "e = (k, v)" by (cases e)
  have kv: "CR \<notin> set k" "CR \<notin> set v" using Cons.prems e by simp_all
  have rest: "CR \<notin> set (db_text hashdb)" using Cons by simp
  have ne: "CR \<noteq> TAB" "CR \<noteq> NL" by (simp_all add: CR_def TAB_def NL_def)
  have "set (db_text (e # hashdb)) = set v \<union> {TAB} \<union> set k \<union> {NL} \<union> set (db_text hashdb)"
    by (auto simp: db_text_def db_line_def e)
  then show ?case using kv rest ne by simp
qed

lemma rstrip_line:
  assumes "k \<noteq> []" and "\<not> is_space (last k)"
  shows "rstrip (v @ [TAB] @ k @ [NL]) = v @ [TAB] @ k"
proof -
  have sp: "is_space NL" by (simp add: is_space_def NL_def)
  obtain c cs where r: "rev k = c # cs" using assms(1) by (cases "rev k") auto
  then have "c = last k" using assms(1) by (metis hd_rev list.sel(1))
  then have c: "\<not> is_space c" using assms(2) by simp
  have "rev (v @ [TAB] @ k @ [NL]) = NL # c # cs @ TAB # rev v" using r by simp
  then have "dropWhile is_space (rev (v @ [TAB] @ k @ [NL])) = c # cs @ TAB # rev v"
    using sp c by simp
  then have "rstrip (v @ [TAB] @ k @ [NL]) = rev (c # cs @ TAB # rev v)" by (simp add: rstrip_def)
  also have "\<dots> = v @ [TAB] @ rev (c # cs)" by simp
  also have "\<dots> = v @ [TAB] @ k" using r by (metis rev_rev_ident)
  finally show ?thesis .
qed

lemma split_tab_line:
  assumes "TAB \<notin> set v"
  shows "split_tab (v @ [TAB] @ k) = Some (v, k)"
proof -
  have ne: "\<And>x. x \<in> set v \<Longrightarrow> x \<noteq> TAB" using assms by blast
  have d: "dropWhile (\<lambda>c. c \<noteq> TAB) (v @ [TAB] @ k) = TAB # k"
    using ne by simp
  have tk: "takeWhile (\<lambda>c. c \<noteq> TAB) (v @ [TAB] @ k) = v"
    using ne by simp
  show ?thesis by (simp only: split_tab_def d tk list.case)
qed


lemma load_lines_db_lines:
  assumes "list_all (\<lambda>(k, v). line_safe_key k \<and> line_safe_digest v) hashdb"
  shows "load_lines (map db_line hashdb) acc = Ok (set_keys hashdb acc)"
  using assms
proof (induction hashdb arbitrary: acc)
  case Nil
  show ?case by (simp add: set_keys_def)
next
  case (Cons e hashdb)
  obtain k v where e: "e = (k, v)" by (cases e)
  have k: "k \<noteq> []" "\<not> is_space (last k)" and v: "TAB \<notin> set v"
    using Cons.prems e by (simp_all add: line_safe_key_def line_safe_digest_def)
  have "split_tab (rstrip (db_line e)) = Some (v, k)"
    unfolding e db_line_def by (simp only: prod.case rstrip_line[OF k] split_tab_line[OF v])
  moreover have "list_all (\<lambda>(k, v). line_safe_key k \<and> line_safe_digest v) hashdb"
    using Cons.prems by simp
  ultimately show ?case using Cons.IH by (simp add: set_keys_def e)
qed


lemma update_fresh: "k \<notin> fst ` set al \<Longrightarrow> AList.update k v al = al @ [(k, v)]"
  by (induction al) auto


lemma set_keys_fresh:
  "distinct (map fst pairs) \<Longrightarrow> fst ` set pairs \<inter> fst ` set acc = {} \<Longrightarrow>
   set_keys pairs acc = acc @ pairs"
proof (induction pairs arbitrary: acc)
  case Nil
  show ?case by (simp add: set_keys_def)
next
  case (Cons e pairs)
  obtain k v where e: "e = (k, v)" by (cases e)
  have fresh: "k \<notin> fst ` set acc" using Cons.prems(2) e by auto
  have "set_keys (e # pairs) acc = set_keys pairs (acc @ [(k, v)])"
    by (simp add: set_keys_def e update_fresh[OF fresh])
  moreover have "distinct (map fst pairs)" using Cons.prems(1) by simp
  moreover have "fst ` set pairs \<inter> fst ` set (acc @ [(k, v)]) = {}"
    using Cons.prems e by auto
  ultimately show ?case using Cons.IH e by simp
qed


lemma readlines_db_text:
  assumes "list_all (\<lambda>(k, v). line_safe_key k \<and> line_safe_digest v) hashdb"
  shows "readlines (db_text hashdb) = map db_line hashdb"
proof -
  have 1: "list_all (\<lambda>(k, v). CR \<notin> set k \<and> CR \<notin> set v) hashdb"
    using assms by (auto simp: list_all_iff line_safe_key_def line_safe_digest_def)
  have 2: "list_all (\<lambda>(k, v). NL \<notin> set k \<and> NL \<notin> set v) hashdb"
    using assms by (auto simp: list_all_iff line_safe_key_def line_safe_digest_def)
  show ?thesis
    by (simp add: readlines_def translate_newlines_id[OF CR_notin_db_text[OF 1]]
                  lines_from_db_text[OF 2])
qed


lemma load_lines_db_text:
  assumes "list_all (\<lambda>(k, v). line_safe_key k \<and> line_safe_digest v) hashdb"
    and "distinct (map fst hashdb)"
  shows "load_lines (readlines (db_text hashdb)) [] = Ok hashdb"
  using readlines_db_text[OF assms(1)] load_lines_db_lines[OF assms(1), of "[]"]
        set_keys_fresh[OF assms(2), of "[]"]
  by simp

lemma open_write_Inr:
  assumes "open_write t p content = Inr t'"
  obtains k where "resolve p = Some k" and "k \<noteq> []" and "t' = AList.update k (File content) t"
    and "lookup t k \<noteq> Some Dir"
proof -
  from assms obtain k where k: "resolve p = Some k"
    by (cases "resolve p") (simp_all add: open_write_def)
  have nd: "lookup t k \<noteq> Some Dir" using assms k by (auto simp: open_write_def split: if_splits)
  then have ne: "k \<noteq> []" by (auto simp: lookup_def)
  have "t' = AList.update k (File content) t"
    using assms k nd by (auto simp: open_write_def split: option.splits node.splits)
  then show ?thesis using that k ne nd by blast
qed

lemma open_read_after_write:
  assumes "open_write t p content = Inr t'"
  shows "os_path_exists t' p" and "open_read t' p = Inr content"
proof -
  obtain k where k: "resolve p = Some k" "k \<noteq> []" "t' = AList.update k (File content) t"
    using open_write_Inr[OF assms] by blast
  have l: "lookup t' k = Some (File content)" using k(2,3) by (simp add: lookup_def update_conv')
  show "os_path_exists t' p" by (simp add: os_path_exists_def k(1) l)
  show "open_read t' p = Inr content" by (simp add: open_read_def k(1) l)
qed

lemma write_db_Ok:
  assumes "write_db sumfile hashdb w = (Ok u, w')"
  shows "open_write (files w) sumfile (db_text hashdb) = Inr (files w')"
    and "stdout w' = stdout w"
  using assms by (auto simp: write_db_def split: sum.splits)

lemma load_after_write:
  assumes "write_db sumfile hashdb w = (Ok u, w')"
    and "distinct (map fst hashdb)"
    and "list_all (\<lambda>(k, v). line_safe_key k \<and> line_safe_digest v) hashdb"
  shows "fst (load_db sumfile w') = Ok hashdb"
proof -
  note ow = write_db_Ok(1)[OF assms(1)]
  note r = open_read_after_write[OF ow]
  show ?thesis
    by (simp add: load_db_def Let_def r load_lines_db_text[OF assms(3,2)])
qed

section \<open>The scan after the sidecar file is written\<close>

lemma filter_update_irrelevant:
  "(\<And>v'. \<not> R (k, v')) \<Longrightarrow> filter R (AList.update k v al) = filter R al"
  by (induction al) auto

lemma untracked_sidecar: "\<not> tracked_name (str ''.sha1sums'')"
  by (simp add: tracked_name_def endswith_def)

lemma walk_files_elem:
  assumes "rel \<in> set (walk_files t directory)"
  obtains d n where "resolve directory = Some d" and "(d @ rel, n) \<in> set t" and "n \<noteq> Dir"
    and "rel \<noteq> []"
proof -
  from assms obtain d where d: "resolve directory = Some d"
    by (cases "resolve directory") (simp_all add: walk_files_def)
  from assms d obtain k n where kn: "(k, n) \<in> set t" "n \<noteq> Dir" "length d < length k"
    "take (length d) k = d" "rel = drop (length d) k"
    by (auto simp: walk_files_def split: if_splits)
  have "k = d @ rel" using kn(4,5) by (metis append_take_drop_id)
  moreover have "rel \<noteq> []" using kn(3,5) by simp
  ultimately show ?thesis using that d kn(1,2) by blast
qed

lemma walk_files_valid:
  assumes "valid_fs t" and "rel \<in> set (walk_files t directory)"
  shows "list_all valid_name rel"
proof -
  obtain d n where "(d @ rel, n) \<in> set t" using walk_files_elem[OF assms(2)] by blast
  then have "list_all valid_name (d @ rel)" using assms(1) by (auto simp: valid_fs_def list_all_iff)
  then show ?thesis by simp
qed

lemma filelist_of_elem:
  assumes "p \<in> set (filelist_of t directory)"
  obtains rel where "rel \<in> set (walk_files t directory)" and "tracked_name (last rel)"
    and "p = join_with [SLASH] rel"
  using assms by (auto simp: filelist_of_def)

lemma filelist_of_after_write:
  assumes "resolve directory = Some d"
  shows "filelist_of (AList.update (d @ [str ''.sha1sums'']) (File content) t) directory
           = filelist_of t directory"
proof -
  let ?sk = "d @ [str ''.sha1sums'']"
  let ?t' = "AList.update ?sk (File content) t"
  let ?Q = "\<lambda>(k, n). n \<noteq> Dir \<and> length d < length k \<and> take (length d) k = d"
  let ?f = "\<lambda>(k, n::node). drop (length d) k"
  let ?T = "\<lambda>rel. tracked_name (last rel)"
  let ?R = "\<lambda>e. ?Q e \<and> ?T (?f e)"
  have l: "lookup ?t' d = lookup t d" by (simp add: lookup_def update_conv')
  have R: "\<And>v'. \<not> ?R (?sk, v')" using untracked_sidecar by simp
  have "filter ?T (map ?f (filter ?Q ?t')) = map ?f (filter ?R ?t')"
    by (simp add: filter_map comp_def case_prod_beta conj_commute)
  also have "\<dots> = map ?f (filter ?R t)" using filter_update_irrelevant[of ?R ?sk, OF R] by simp
  also have "\<dots> = filter ?T (map ?f (filter ?Q t))"
    by (simp add: filter_map comp_def case_prod_beta conj_commute)
  finally have "filter ?T (walk_files ?t' directory) = filter ?T (walk_files t directory)"
    by (simp add: walk_files_def assms l)
  then show ?thesis by (simp add: filelist_of_def)
qed

lemma hash_file_after_write:
  assumes "valid_fs t" and "resolve directory = Some d"
    and "p \<in> set (filelist_of t directory)"
  shows "hash_file sha1 (AList.update (d @ [str ''.sha1sums'']) (File content) t)
           (os_path_join directory p)
         = hash_file sha1 t (os_path_join directory p)"
proof -
  obtain rel where rel: "rel \<in> set (walk_files t directory)" "tracked_name (last rel)"
    "p = join_with [SLASH] rel" using filelist_of_elem[OF assms(3)] by blast
  have ne: "rel \<noteq> []" using rel(1) by (rule walk_files_nonempty)
  have v: "list_all valid_name rel" using walk_files_valid[OF assms(1) rel(1)] .
  have r: "resolve (os_path_join directory p) = Some (d @ rel)"
    unfolding rel(3) using resolve_join[OF assms(2) ne v] .
  have "rel \<noteq> [str ''.sha1sums'']" using rel(2) untracked_sidecar by auto
  then have k: "d @ rel \<noteq> d @ [str ''.sha1sums'']" by simp
  have "lookup (AList.update (d @ [str ''.sha1sums'']) (File content) t) (d @ rel) = lookup t (d @ rel)"
    using k ne by (simp add: lookup_def update_conv')
  then show ?thesis by (simp add: hash_file_def open_read_def r)
qed

lemma digest_of_after_write:
  assumes "valid_fs t" and "resolve directory = Some d"
    and "p \<in> set (filelist_of t directory)"
  shows "digest_of sha1 (AList.update (d @ [str ''.sha1sums'']) (File content) t) directory p
         = digest_of sha1 t directory p"
  by (simp add: digest_of_def hash_file_after_write[OF assms])

lemma readable_after_write:
  assumes "valid_fs t" and "resolve directory = Some d"
    and "readable sha1 t directory (filelist_of t directory)"
  shows "readable sha1 (AList.update (d @ [str ''.sha1sums'']) (File content) t) directory
           (filelist_of t directory)"
  using assms(3) hash_file_after_write[OF assms(1,2)] digest_of_after_write[OF assms(1,2)]
  by (simp add: readable_def list_all_iff)

lemma filelist_of_no_directory: "resolve directory = None \<Longrightarrow> filelist_of t directory = []"
  by (simp add: filelist_of_def walk_files_def)

lemma scan_after_sidecar_write:
  assumes "valid_fs t"
    and "open_write t (os_path_join directory (str ''.sha1sums'')) content = Inr t'"
    and "readable sha1 t directory (filelist_of t directory)"
  shows "filelist_of t' directory = filelist_of t directory"
    and "readable sha1 t' directory (filelist_of t directory)"
    and "\<And>p. p \<in> set (filelist_of t directory) \<Longrightarrow>
           digest_of sha1 t' directory p = digest_of sha1 t directory p"
proof -
  obtain sk where sk: "resolve (os_path_join directory (str ''.sha1sums'')) = Some sk"
    and t': "t' = AList.update sk (File content) t"
    using open_write_Inr[OF assms(2)] by blast
  have "filelist_of t' directory = filelist_of t directory
        \<and> readable sha1 t' directory (filelist_of t directory)
        \<and> (\<forall>p \<in> set (filelist_of t directory).
              digest_of sha1 t' directory p = digest_of sha1 t directory p)"
  proof (cases "resolve directory")
    case None
    then show ?thesis by (simp add: filelist_of_no_directory readable_def)
  next
    case (Some d)
    have "sk = d @ [str ''.sha1sums'']" using resolve_sumfile[OF Some] sk by simp
    then have t'': "t' = AList.update (d @ [str ''.sha1sums'']) (File content) t" using t' by simp
    show ?thesis unfolding t''
      using filelist_of_after_write[OF Some] readable_after_write[OF assms(1) Some assms(3)]
            digest_of_after_write[OF assms(1) Some]
      by simp
  qed
  then show "filelist_of t' directory = filelist_of t directory"
    and "readable sha1 t' directory (filelist_of t directory)"
    and "\<And>p. p \<in> set (filelist_of t directory) \<Longrightarrow>
           digest_of sha1 t' directory p = digest_of sha1 t directory p"
    by blast+
qed

section \<open>The database that a commit writes\<close>

lemma map_of_set_keys:
  "distinct (map fst pairs) \<Longrightarrow>
   map_of (set_keys pairs acc) k = (case map_of pairs k of Some v \<Rightarrow> Some v | None \<Rightarrow> map_of acc k)"
proof (induction pairs arbitrary: acc)
  case Nil
  show ?case by (simp add: set_keys_def)
next
  case (Cons e pairs)
  obtain k0 v0 where e: "e = (k0, v0)" by (cases e)
  have d: "distinct (map fst pairs)" and f: "k0 \<notin> fst ` set pairs" using Cons.prems e by auto
  have s: "set_keys (e # pairs) acc = set_keys pairs (AList.update k0 v0 acc)"
    by (simp add: set_keys_def e)
  have n: "map_of pairs k0 = None" using f by (simp add: map_of_eq_None_iff)
  show ?case unfolding s Cons.IH[OF d] using n
    by (cases "k = k0") (simp_all add: e update_conv' split: option.splits)
qed

lemma distinct_set_keys: "distinct (map fst acc) \<Longrightarrow> distinct (map fst (set_keys pairs acc))"
proof (induction pairs arbitrary: acc)
  case Nil
  then show ?case by (simp add: set_keys_def)
next
  case (Cons e pairs)
  obtain k0 v0 where e: "e = (k0, v0)" by (cases e)
  have s: "set_keys (e # pairs) acc = set_keys pairs (AList.update k0 v0 acc)"
    by (simp add: set_keys_def e)
  show ?case unfolding s using Cons.IH distinct_update[OF Cons.prems] by blast
qed

lemma del_keys_Inr:
  "del_keys dels hashdb = Inr hashdb' \<Longrightarrow>
   map_of hashdb' k = (if k \<in> set dels then None else map_of hashdb k)
   \<and> (distinct (map fst hashdb) \<longrightarrow> distinct (map fst hashdb'))"
proof (induction dels arbitrary: hashdb)
  case Nil
  then show ?case by simp
next
  case (Cons x dels)
  from Cons.prems have r: "del_keys dels (AList.delete x hashdb) = Inr hashdb'"
    by (simp split: if_splits)
  show ?case using Cons.IH[OF r] by (auto simp: delete_conv' distinct_delete)
qed

lemma map_of_keyed:
  "map_of (map (\<lambda>p. (p, f p)) xs) k = (if k \<in> set xs then Some (f k) else None)"
  by (induction xs) auto

lemma hexchar_safe: "d < 16 \<Longrightarrow> hexchar d \<noteq> TAB \<and> hexchar d \<noteq> NL \<and> hexchar d \<noteq> CR"
  by (simp add: hexchar_def TAB_def NL_def CR_def)

lemma hex_digits_safe: "c \<in> set (hex_digits k n) \<Longrightarrow> c \<noteq> TAB \<and> c \<noteq> NL \<and> c \<noteq> CR"
proof (induction k arbitrary: n)
  case 0
  then show ?case by simp
next
  case (Suc k)
  then show ?case using hexchar_safe[of "n mod 16"] by auto
qed

lemma line_safe_hexdigest: "line_safe_digest (hexdigest n)"
  using hex_digits_safe[of _ 40 n] by (auto simp: line_safe_digest_def hexdigest_def)

lemma readable_digest_safe:
  assumes "readable sha1 t directory fl" and "p \<in> set fl"
  shows "line_safe_digest (digest_of sha1 t directory p)"
proof -
  have "hash_file sha1 t (os_path_join directory p) = Inr (digest_of sha1 t directory p)"
    using assms by (simp add: readable_def list_all_iff)
  then have "\<exists>n. digest_of sha1 t directory p = hexdigest n"
    by (cases "open_read t (os_path_join directory p)") (auto simp: hash_file_def intro: sym)
  then obtain n where "digest_of sha1 t directory p = hexdigest n" by blast
  then show ?thesis by (simp add: line_safe_hexdigest)
qed

lemma check_from_parts:
  assumes "fst (load_db (os_path_join directory (str ''.sha1sums'')) w) = Ok hashdb"
    and "readable sha1 (files w) directory (filelist_of (files w) directory)"
  shows "fst (check sha1 directory log w)
         = Ok \<lparr>db = hashdb,
               deletions = filter (\<lambda>f. f \<notin> set (filelist_of (files w) directory)) (map fst hashdb),
               additions = new_files sha1 (files w) directory hashdb (filelist_of (files w) directory),
               changes = changed_files sha1 (files w) directory hashdb (filelist_of (files w) directory)\<rparr>"
proof -
  let ?sumfile = "os_path_join directory (str ''.sha1sums'')"
  obtain w1 where l: "load_db ?sumfile w = (Ok hashdb, w1)"
    using assms(1) by (cases "load_db ?sumfile w") simp
  have f1: "files w1 = files w" using load_db_files[of ?sumfile w] l by simp
  show ?thesis
    by (simp add: check_def Let_def l f1 check_files_readable[OF assms(2)])
qed

lemma committed_db:
  assumes c: "check sha1 directory log w = (Ok r, w1)"
    and dk: "del_keys (deletions r) (set_keys (changes r) (set_keys (additions r) (db r))) = Inr hashdb"
  shows "map_of hashdb p = (if p \<in> set (filelist_of (files w) directory)
                            then Some (digest_of sha1 (files w) directory p) else None)"
    and "distinct (map fst hashdb)"
proof -
  let ?S = "filelist_of (files w) directory"
  let ?dg = "digest_of sha1 (files w) directory"
  note k = check_Ok[OF c]
  have dS: "distinct ?S" by (rule distinct_filelist_of)
  have dD: "distinct (map fst (db r))" using load_db_distinct k(1) by blast
  have dA: "distinct (map fst (additions r))" by (simp add: k(2) map_fst_new_files dS)
  have dC: "distinct (map fst (changes r))" by (simp add: k(3) map_fst_changed_files dS)
  have mA: "map_of (additions r) p = (if p \<in> set ?S \<and> map_of (db r) p = None then Some (?dg p) else None)"
    unfolding k(2) new_files_def by (simp add: map_of_keyed)
  have mC: "map_of (changes r) p
              = (if p \<in> set ?S \<and> map_of (db r) p \<noteq> None \<and> map_of (db r) p \<noteq> Some (?dg p)
                 then Some (?dg p) else None)"
    unfolding k(3) changed_files_def by (simp add: map_of_keyed)
  have X: "(p \<in> set (deletions r)) = (map_of (db r) p \<noteq> None \<and> p \<notin> set ?S)"
    unfolding k(4) by (auto simp: map_of_eq_None_iff)
  note d = del_keys_Inr[OF dk, of p]
  have "map_of hashdb p = (if p \<in> set (deletions r) then None
          else (case map_of (changes r) p of Some v \<Rightarrow> Some v
                | None \<Rightarrow> (case map_of (additions r) p of Some v \<Rightarrow> Some v
                            | None \<Rightarrow> map_of (db r) p)))"
    using d map_of_set_keys[OF dC, of "set_keys (additions r) (db r)" p]
          map_of_set_keys[OF dA, of "db r" p]
    by (simp split: option.splits)
  then show "map_of hashdb p = (if p \<in> set ?S then Some (?dg p) else None)"
    unfolding X mA mC by (cases "map_of (db r) p") auto
  have "distinct (map fst (set_keys (changes r) (set_keys (additions r) (db r))))"
    using dD by (intro distinct_set_keys)
  then show "distinct (map fst hashdb)" using d by blast
qed

lemma interactive_check_committed:
  assumes "fst (interactive_check sha1 directory commit w) = Ok ()"
  obtains r w1 hashdb w7 where "check sha1 directory True w = (Ok r, w1)"
    and "del_keys (deletions r) (set_keys (changes r) (set_keys (additions r) (db r))) = Inr hashdb"
    and "files w7 = files w"
    and "write_db (os_path_join directory (str ''.sha1sums'')) hashdb w7
           = (Ok (), snd (interactive_check sha1 directory commit w))"
proof -
  let ?ic = "interactive_check sha1 directory commit w"
  obtain res w1 where c0: "check sha1 directory True w = (res, w1)"
    by (cases "check sha1 directory True w")
  have "\<exists>r. res = Ok r"
  proof (cases res)
    case (Raise e)
    then have "fst ?ic = Raise e" using interactive_check_raises c0 by (metis fst_conv)
    then show ?thesis using assms by simp
  qed simp
  then obtain r where c: "check sha1 directory True w = (Ok r, w1)" using c0 by blast
  obtain w5 where f5: "files w5 = files w"
    and ic: "?ic =
          (let w7 = py_print [str ''Commit changes [y/n]? '']
                      (py_print [str ''* Please review changes, including checking if changed files are ok before commiting.''] w5)
           in if \<not> (startswith commit (str ''y'') \<or> startswith commit (str ''Y''))
              then (Raise (SystemExit 0), py_print [str ''Canceled.''] w7)
              else (case del_keys (deletions r) (set_keys (changes r) (set_keys (additions r) (db r))) of
                      Inl e \<Rightarrow> (Raise e, w7)
                    | Inr hashdb \<Rightarrow> write_db (os_path_join directory (str ''.sha1sums'')) hashdb w7))"
    using interactive_check_prints[OF c] by blast
  let ?w7 = "py_print [str ''Commit changes [y/n]? '']
               (py_print [str ''* Please review changes, including checking if changed files are ok before commiting.''] w5)"
  have yes: "startswith commit (str ''y'') \<or> startswith commit (str ''Y'')"
  proof (rule ccontr)
    assume "\<not> ?thesis"
    then have "fst ?ic = Raise (SystemExit 0)" unfolding ic by (simp add: Let_def)
    then show False using assms by simp
  qed
  have "\<exists>hashdb. del_keys (deletions r) (set_keys (changes r) (set_keys (additions r) (db r))) = Inr hashdb"
  proof (cases "del_keys (deletions r) (set_keys (changes r) (set_keys (additions r) (db r)))")
    case (Inl e)
    then have "fst ?ic = Raise e" unfolding ic using yes by (simp add: Let_def)
    then show ?thesis using assms by simp
  qed simp
  then obtain hashdb where
    dk: "del_keys (deletions r) (set_keys (changes r) (set_keys (additions r) (db r))) = Inr hashdb"
    by blast
  have "?ic = write_db (os_path_join directory (str ''.sha1sums'')) hashdb ?w7"
    unfolding ic using yes dk by (simp add: Let_def)
  then have "write_db (os_path_join directory (str ''.sha1sums'')) hashdb ?w7 = (Ok (), snd ?ic)"
    using assms by (metis prod.collapse)
  moreover have "files ?w7 = files w" using f5 by simp
  ultimately show ?thesis using that c dk by blast
qed

lemma interactive_check_commit_run:
  assumes "fst (check sha1 directory True w) = Ok r"
    and "startswith commit (str ''y'') \<or> startswith commit (str ''Y'')"
    and "del_keys (deletions r) (set_keys (changes r) (set_keys (additions r) (db r))) = Inr hashdb"
    and "open_write (files w) (os_path_join directory (str ''.sha1sums'')) (db_text hashdb) = Inr t'"
  shows "fst (interactive_check sha1 directory commit w) = Ok ()"
    and "files (snd (interactive_check sha1 directory commit w)) = t'"
proof -
  obtain w1 where c: "check sha1 directory True w = (Ok r, w1)"
    using assms(1) by (cases "check sha1 directory True w") simp
  obtain w5 where f5: "files w5 = files w"
    and ic: "interactive_check sha1 directory commit w =
          (let w7 = py_print [str ''Commit changes [y/n]? '']
                      (py_print [str ''* Please review changes, including checking if changed files are ok before commiting.''] w5)
           in if \<not> (startswith commit (str ''y'') \<or> startswith commit (str ''Y''))
              then (Raise (SystemExit 0), py_print [str ''Canceled.''] w7)
              else (case del_keys (deletions r) (set_keys (changes r) (set_keys (additions r) (db r))) of
                      Inl e \<Rightarrow> (Raise e, w7)
                    | Inr hashdb \<Rightarrow> write_db (os_path_join directory (str ''.sha1sums'')) hashdb w7))"
    using interactive_check_prints[OF c] by blast
  show "fst (interactive_check sha1 directory commit w) = Ok ()"
    unfolding ic using assms(2,3,4) f5 by (simp add: Let_def write_db_def)
  show "files (snd (interactive_check sha1 directory commit w)) = t'"
    unfolding ic using assms(2,3,4) f5 by (simp add: Let_def write_db_def)
qed

section \<open>What replicate keeps\<close>

lemma kept_refl: "kept t t"
  by (simp add: kept_def)

lemma kept_trans: "kept t t' \<Longrightarrow> kept t' t'' \<Longrightarrow> kept t t''"
  unfolding kept_def by blast

lemma open_read_Inr:
  "(open_read t p = Inr c) = (\<exists>k. resolve p = Some k \<and> lookup t k = Some (File c))"
  by (auto simp: open_read_def split: option.splits node.splits)

lemma keptI:
  assumes "\<And>k c. lookup t k = Some (File c) \<Longrightarrow> \<exists>c'. lookup t' k = Some (File c')"
  shows "kept t t'"
  unfolding kept_def open_read_Inr using assms by blast

lemma kept_update_File: "kept t (AList.update k (File content) t)"
proof (rule keptI)
  fix k' c assume "lookup t k' = Some (File c)"
  then show "\<exists>c'. lookup (AList.update k (File content) t) k' = Some (File c')"
    by (cases "k' = k") (auto simp: lookup_def update_conv' split: if_splits)
qed

lemma kept_update_new: "lookup t k = None \<Longrightarrow> kept t (AList.update k n t)"
proof (rule keptI)
  fix k' c assume a: "lookup t k = None" "lookup t k' = Some (File c)"
  then have "k' \<noteq> k" by auto
  then show "\<exists>c'. lookup (AList.update k n t) k' = Some (File c')"
    using a(2) by (auto simp: lookup_def update_conv' split: if_splits)
qed

lemma kept_open_write: "open_write t p content = Inr t' \<Longrightarrow> kept t t'"
  using open_write_Inr kept_update_File by metis

lemma kept_os_mkdir: "os_mkdir t p = Inr t' \<Longrightarrow> kept t t'"
  using kept_update_new
  by (auto simp: os_mkdir_def split: option.splits if_splits node.splits)

lemma kept_shutil_copy2: "shutil_copy2 t src dst = Inr t' \<Longrightarrow> kept t t'"
  using kept_open_write
  by (auto simp: shutil_copy2_def Let_def split: if_splits sum.splits)

lemma kept_make_parents_loop: "kept t (snd (make_parents_loop directory t))"
proof (induction directory t rule: make_parents_loop.induct)
  case (1 directory t)
  show ?case
  proof (cases "os_path_exists t directory")
    case True
    then show ?thesis by (simp add: make_parents_loop.simps kept_refl)
  next
    case False
    show ?thesis
    proof (cases "os_mkdir t directory")
      case (Inl e)
      then show ?thesis using False by (simp add: make_parents_loop.simps kept_refl)
    next
      case (Inr t1)
      have "kept t1 (snd (make_parents_loop (fst (os_path_split directory)) t1))"
        using "1.IH"[OF False Inr] .
      then have "kept t (snd (make_parents_loop (fst (os_path_split directory)) t1))"
        using kept_trans[OF kept_os_mkdir[OF Inr]] by blast
      then show ?thesis using False Inr by (simp add: make_parents_loop.simps)
    qed
  qed
qed

lemma kept_make_parents: "kept t (snd (make_parents filepath t))"
  unfolding make_parents_def by (rule kept_make_parents_loop)

lemma kept_write_db: "kept (files w) (files (snd (write_db sumfile hashdb w)))"
  using kept_open_write by (auto simp: write_db_def kept_refl split: sum.splits)

lemma within_refl: "within T t t"
  by (simp add: within_def)

lemma within_mono: "within T t t' \<Longrightarrow> T \<subseteq> T' \<Longrightarrow> within T' t t'"
  unfolding within_def by blast

lemma within_trans:
  assumes "within T t t'" and "within T t' t''"
  shows "within T t t''"
  unfolding within_def
proof (intro allI impI)
  fix k assume k: "k \<notin> T"
  from assms(1) k have 1: "lookup t' k = lookup t k \<or> (lookup t k = None \<and> lookup t' k = Some Dir)"
    by (simp add: within_def)
  from assms(2) k have 2: "lookup t'' k = lookup t' k \<or> (lookup t' k = None \<and> lookup t'' k = Some Dir)"
    by (simp add: within_def)
  from 1 2 show "lookup t'' k = lookup t k \<or> (lookup t k = None \<and> lookup t'' k = Some Dir)"
    by auto
qed

lemma within_update: "within {k} t (AList.update k n t)"
  by (simp add: within_def lookup_def update_conv')

lemma within_open_write:
  assumes "open_write t p content = Inr t'"
  shows "within {k. resolve p = Some k} t t'"
proof -
  obtain k where k: "resolve p = Some k" "t' = AList.update k (File content) t"
    using open_write_Inr[OF assms] by blast
  have "within {k} t t'" unfolding k(2) by (rule within_update)
  then show ?thesis by (rule within_mono) (simp add: k(1))
qed

lemma within_os_mkdir:
  assumes "os_mkdir t p = Inr t'"
  shows "within {} t t'"
proof -
  from assms obtain k where k: "lookup t k = None" "t' = AList.update k Dir t"
    by (auto simp: os_mkdir_def split: option.splits if_splits node.splits)
  have ne: "k \<noteq> []" using k(1) by (auto simp: lookup_def)
  show ?thesis unfolding within_def
  proof (intro allI impI)
    fix k' show "lookup t' k' = lookup t k' \<or> (lookup t k' = None \<and> lookup t' k' = Some Dir)"
      using k ne by (cases "k' = k") (simp_all add: lookup_def update_conv')
  qed
qed

lemma within_make_parents_loop: "within {} t (snd (make_parents_loop directory t))"
proof (induction directory t rule: make_parents_loop.induct)
  case (1 directory t)
  show ?case
  proof (cases "os_path_exists t directory")
    case True
    then show ?thesis by (simp add: make_parents_loop.simps within_refl)
  next
    case False
    show ?thesis
    proof (cases "os_mkdir t directory")
      case (Inl e)
      then show ?thesis using False by (simp add: make_parents_loop.simps within_refl)
    next
      case (Inr t1)
      have "within {} t1 (snd (make_parents_loop (fst (os_path_split directory)) t1))"
        using "1.IH"[OF False Inr] .
      then have "within {} t (snd (make_parents_loop (fst (os_path_split directory)) t1))"
        using within_trans[OF within_os_mkdir[OF Inr]] by blast
      then show ?thesis using False Inr by (simp add: make_parents_loop.simps)
    qed
  qed
qed

lemma within_make_parents: "within {} t (snd (make_parents filepath t))"
  unfolding make_parents_def by (rule within_make_parents_loop)

lemma within_shutil_copy2:
  assumes "shutil_copy2 t srcpath dstpath = Inr t'"
  shows "within {k. resolve dstpath = Some k
                  \<or> resolve (os_path_join dstpath (snd (os_path_split srcpath))) = Some k} t t'"
proof -
  let ?dst' = "if os_path_isdir t dstpath then os_path_join dstpath (snd (os_path_split srcpath))
               else dstpath"
  from assms obtain content where "open_write t ?dst' content = Inr t'"
    by (auto simp: shutil_copy2_def Let_def split: if_splits sum.splits)
  then have "within {k. resolve ?dst' = Some k} t t'" by (rule within_open_write)
  then show ?thesis by (rule within_mono) auto
qed

lemma within_write_db:
  "within {k. resolve sumfile = Some k} (files w) (files (snd (write_db sumfile hashdb w)))"
proof (cases "open_write (files w) sumfile (db_text hashdb)")
  case (Inl e)
  then show ?thesis by (simp add: write_db_def within_refl)
next
  case (Inr t)
  then show ?thesis using within_open_write[OF Inr] by (simp add: write_db_def)
qed

lemma replicate_files_step:
  obtains nd' w' where "kept (files w) (files w')"
    and "within (copy_keys src dst srcfile) (files w) (files w')"
    and "\<And>k. k \<noteq> srcfile \<Longrightarrow> map_of nd' k = map_of nd k"
    and "replicate_files src dst srcdb (srcfile # rest) nd w
           = replicate_files src dst srcdb rest nd' w'
         \<or> (\<exists>e. replicate_files src dst srcdb (srcfile # rest) nd w = (Raise e, w'))"
proof (cases "map_of srcdb srcfile")
  case None
  then have "replicate_files src dst srcdb (srcfile # rest) nd w = (Raise KeyError, w)" by simp
  then show ?thesis using that[of w nd] kept_refl within_refl by blast
next
  case (Some srchash)
  let ?srcpath = "os_path_join src srcfile"
  let ?dstpath = "os_path_join dst srcfile"
  let ?upd = "AList.update srcfile srchash nd"
  have upd: "\<And>k. k \<noteq> srcfile \<Longrightarrow> map_of ?upd k = map_of nd k" by (simp add: update_conv')
  have ck: "copy_keys src dst srcfile
              = {k. resolve ?dstpath = Some k
                   \<or> resolve (os_path_join ?dstpath (snd (os_path_split ?srcpath))) = Some k}"
    by (simp add: copy_keys_def)
  show ?thesis
  proof (cases "truthy (map_of nd srcfile)")
    case True
    show ?thesis
    proof (cases "map_of nd srcfile \<noteq> Some srchash")
      case False
      then have "replicate_files src dst srcdb (srcfile # rest) nd w
                   = replicate_files src dst srcdb rest nd w"
        using Some True by (simp add: Let_def)
      then show ?thesis using that[of w nd] kept_refl within_refl by blast
    next
      case ne: True
      let ?w2 = "py_print [?dstpath, str ''->'', ?srcpath]
                   (py_print [str ''File'', srcfile, str ''changed in src filesystem, replicating.''] w)"
      show ?thesis
      proof (cases "shutil_copy2 (files w) ?srcpath ?dstpath")
        case (Inl e)
        then have "replicate_files src dst srcdb (srcfile # rest) nd w = (Raise e, ?w2)"
          using Some True ne by (simp add: Let_def)
        moreover have "kept (files w) (files ?w2)" by (simp add: kept_refl)
        moreover have "within (copy_keys src dst srcfile) (files w) (files ?w2)"
          by (simp add: within_refl)
        ultimately show ?thesis using that[of ?w2 nd] by blast
      next
        case (Inr t)
        then have "replicate_files src dst srcdb (srcfile # rest) nd w
                     = replicate_files src dst srcdb rest ?upd (?w2\<lparr>files := t\<rparr>)"
          using Some True ne by (simp add: Let_def)
        moreover have "kept (files w) (files (?w2\<lparr>files := t\<rparr>))"
          using kept_shutil_copy2[OF Inr] by simp
        moreover have "within (copy_keys src dst srcfile) (files w) (files (?w2\<lparr>files := t\<rparr>))"
          using within_shutil_copy2[OF Inr] by (simp add: ck)
        ultimately show ?thesis using that[of "?w2\<lparr>files := t\<rparr>" ?upd] upd by blast
      qed
    qed
  next
    case False
    let ?w2 = "py_print [?dstpath, str ''->'', ?srcpath]
                 (py_print [str ''File'', srcfile, str ''added in src filesystem, replicating.''] w)"
    obtain mres t where mp: "make_parents ?dstpath (files w) = (mres, t)"
      by (cases "make_parents ?dstpath (files w)")
    have k1: "kept (files w) t" using kept_make_parents[of "files w" ?dstpath] mp by simp
    have "within {} (files w) t" using within_make_parents[of "files w" ?dstpath] mp by simp
    then have i1: "within (copy_keys src dst srcfile) (files w) t" by (rule within_mono) simp
    show ?thesis
    proof (cases mres)
      case (Raise e)
      then have "replicate_files src dst srcdb (srcfile # rest) nd w = (Raise e, ?w2\<lparr>files := t\<rparr>)"
        using Some False mp by (simp add: Let_def)
      moreover have "kept (files w) (files (?w2\<lparr>files := t\<rparr>))" using k1 by simp
      moreover have "within (copy_keys src dst srcfile) (files w) (files (?w2\<lparr>files := t\<rparr>))"
        using i1 by simp
      ultimately show ?thesis using that[of "?w2\<lparr>files := t\<rparr>" nd] by blast
    next
      case (Ok u)
      show ?thesis
      proof (cases "shutil_copy2 t ?srcpath ?dstpath")
        case (Inl e)
        then have "replicate_files src dst srcdb (srcfile # rest) nd w = (Raise e, ?w2\<lparr>files := t\<rparr>)"
          using Some False mp Ok by (simp add: Let_def)
        moreover have "kept (files w) (files (?w2\<lparr>files := t\<rparr>))" using k1 by simp
        moreover have "within (copy_keys src dst srcfile) (files w) (files (?w2\<lparr>files := t\<rparr>))"
          using i1 by simp
        ultimately show ?thesis using that[of "?w2\<lparr>files := t\<rparr>" nd] by blast
      next
        case (Inr t')
        then have "replicate_files src dst srcdb (srcfile # rest) nd w
                     = replicate_files src dst srcdb rest ?upd (?w2\<lparr>files := t'\<rparr>)"
          using Some False mp Ok by (simp add: Let_def)
        moreover have "kept (files w) (files (?w2\<lparr>files := t'\<rparr>))"
          using kept_trans[OF k1 kept_shutil_copy2[OF Inr]] by simp
        moreover have "within (copy_keys src dst srcfile) (files w) (files (?w2\<lparr>files := t'\<rparr>))"
          using within_trans[OF i1] within_shutil_copy2[OF Inr] by (simp add: ck)
        ultimately show ?thesis using that[of "?w2\<lparr>files := t'\<rparr>" ?upd] upd by blast
      qed
    qed
  qed
qed

lemma kept_replicate_files:
  "kept (files w) (files (snd (replicate_files src dst srcdb ks nd w)))"
proof (induction ks arbitrary: nd w)
  case Nil
  show ?case by (simp add: kept_refl)
next
  case (Cons srcfile rest)
  obtain nd' w' where k: "kept (files w) (files w')"
    and r: "replicate_files src dst srcdb (srcfile # rest) nd w
              = replicate_files src dst srcdb rest nd' w'
            \<or> (\<exists>e. replicate_files src dst srcdb (srcfile # rest) nd w = (Raise e, w'))"
    using replicate_files_step[where w=w and src=src and dst=dst and srcdb=srcdb and srcfile=srcfile and rest=rest and nd=nd] by metis
  from r show ?case
  proof
    assume "replicate_files src dst srcdb (srcfile # rest) nd w
              = replicate_files src dst srcdb rest nd' w'"
    then show ?thesis using kept_trans[OF k Cons.IH] by simp
  next
    assume "\<exists>e. replicate_files src dst srcdb (srcfile # rest) nd w = (Raise e, w')"
    then show ?thesis using k by auto
  qed
qed

lemma replicate_files_Ok_keys:
  "replicate_files src dst srcdb ks nd w = (Ok nd', w') \<Longrightarrow> k \<notin> set ks \<Longrightarrow>
   map_of nd' k = map_of nd k"
proof (induction ks arbitrary: nd w)
  case Nil
  then show ?case by simp
next
  case (Cons srcfile rest)
  obtain nd1 w1 where m: "\<And>k. k \<noteq> srcfile \<Longrightarrow> map_of nd1 k = map_of nd k"
    and r: "replicate_files src dst srcdb (srcfile # rest) nd w
              = replicate_files src dst srcdb rest nd1 w1
            \<or> (\<exists>e. replicate_files src dst srcdb (srcfile # rest) nd w = (Raise e, w1))"
    using replicate_files_step[where w=w and src=src and dst=dst and srcdb=srcdb and srcfile=srcfile and rest=rest and nd=nd] by metis
  from r Cons.prems(1) have "replicate_files src dst srcdb rest nd1 w1 = (Ok nd', w')" by auto
  then have "map_of nd' k = map_of nd1 k" using Cons.IH Cons.prems(2) by simp
  then show ?case using m Cons.prems(2) by simp
qed

lemma files_checked_world: "files (checked_world sha1 src dst w) = files w"
  by (simp add: checked_world_def check_files_unchanged)

lemma replicate_fs_clean_run:
  assumes "fst (check sha1 src True w) = Ok srcdata" and "fst (check sha1 dst True w) = Ok dstdata"
    and "\<not> is_dirty srcdata" and "\<not> is_dirty dstdata"
  shows "replicate_fs sha1 src dst w =
          (case replicate_files src dst (db srcdata) (map fst (db srcdata)) (db dstdata)
                  (checked_world sha1 src dst w) of
             (Raise e, w4) \<Rightarrow> (Raise e, w4)
           | (Ok newdsthash, w4) \<Rightarrow>
               write_db (os_path_join dst (str ''.sha1sums'')) newdsthash
                 (report_deletions (db srcdata) newdsthash w4))"
proof -
  obtain w1 where c1: "check sha1 src True (py_print [str ''Checking source '', src] w) = (Ok srcdata, w1)"
    and f1: "files w1 = files w" using replicate_fs_checked[OF assms(1)] by blast
  obtain w3 where c3: "check sha1 dst True (py_print [str ''Checking destination '', dst] w1) = (Ok dstdata, w3)"
    and f3: "files w3 = files w" using replicate_fs_checked_dst[OF assms(2) f1] by blast
  have "checked_world sha1 src dst w = w3" by (simp add: checked_world_def c1 c3)
  then show ?thesis using assms(3,4) by (simp add: replicate_fs_def c1 c3)
qed

lemma files_report_deletions [simp]: "files (report_deletions srcdb nd w) = files w"
proof -
  have "\<And>ks. files (fold (\<lambda>dstfile w'.
             if \<not> truthy (map_of srcdb dstfile)
             then py_print [str ''* Refusing to automaticly delete '', dstfile, str '' in backup''] w'
             else w') ks w) = files w"
  proof -
    fix ks show "files (fold (\<lambda>dstfile w'.
             if \<not> truthy (map_of srcdb dstfile)
             then py_print [str ''* Refusing to automaticly delete '', dstfile, str '' in backup''] w'
             else w') ks w) = files w"
      by (induction ks arbitrary: w) auto
  qed
  then show ?thesis by (simp add: report_deletions_def)
qed

lemma stdout_report_deletions:
  "set (stdout (report_deletions srcdb nd w))
     = set (stdout w) \<union> refusal ` {k \<in> fst ` set nd. \<not> truthy (map_of srcdb k)}"
proof -
  let ?f = "\<lambda>dstfile w'.
             if \<not> truthy (map_of srcdb dstfile)
             then py_print [str ''* Refusing to automaticly delete '', dstfile, str '' in backup''] w'
             else w'"
  have "\<And>ks w. set (stdout (fold ?f ks w))
          = set (stdout w) \<union> refusal ` {k \<in> set ks. \<not> truthy (map_of srcdb k)}"
  proof -
    fix ks w show "set (stdout (fold ?f ks w))
          = set (stdout w) \<union> refusal ` {k \<in> set ks. \<not> truthy (map_of srcdb k)}"
    proof (induction ks arbitrary: w)
      case Nil
      show ?case by simp
    next
      case (Cons k ks)
      show ?case
      proof (cases "truthy (map_of srcdb k)")
        case True
        then show ?thesis using Cons[of w] by auto
      next
        case False
        have "set (stdout (py_print [str ''* Refusing to automaticly delete '', k, str '' in backup''] w))
                = set (stdout w) \<union> {refusal k}"
          by (simp add: py_print_def refusal_def)
        then show ?thesis
          using False Cons[of "py_print [str ''* Refusing to automaticly delete '', k, str '' in backup''] w"]
          by auto
      qed
    qed
  qed
  then show ?thesis by (simp add: report_deletions_def)
qed

lemma kept_replicate_fs: "kept (files w) (files (snd (replicate_fs sha1 src dst w)))"
proof (cases "gates_pass sha1 src dst w")
  case False
  then show ?thesis using replicate_fs_gates kept_refl by metis
next
  case True
  then obtain srcdata dstdata where s: "fst (check sha1 src True w) = Ok srcdata"
    and d: "fst (check sha1 dst True w) = Ok dstdata"
    and c: "\<not> is_dirty srcdata" "\<not> is_dirty dstdata"
    by (auto simp: gates_pass_def split: result.splits)
  note run = replicate_fs_clean_run[OF s d c]
  let ?w3 = "checked_world sha1 src dst w"
  obtain res w4 where rf: "replicate_files src dst (db srcdata) (map fst (db srcdata)) (db dstdata) ?w3
                             = (res, w4)"
    by (cases "replicate_files src dst (db srcdata) (map fst (db srcdata)) (db dstdata) ?w3")
  have k4: "kept (files w) (files w4)"
    using kept_replicate_files[of ?w3 src dst "db srcdata" "map fst (db srcdata)" "db dstdata"] rf
    by (simp add: files_checked_world)
  show ?thesis
  proof (cases res)
    case (Raise e)
    then show ?thesis using run rf k4 by simp
  next
    case (Ok nd)
    have "kept (files w4) (files (snd (write_db (os_path_join dst (str ''.sha1sums'')) nd
                                        (report_deletions (db srcdata) nd w4))))"
      using kept_write_db[of "report_deletions (db srcdata) nd w4"] by simp
    then show ?thesis using run rf Ok kept_trans[OF k4] by simp
  qed
qed

lemma replicate_fs_Ok:
  assumes "fst (check sha1 src True w) = Ok srcdata" and "fst (check sha1 dst True w) = Ok dstdata"
    and "\<not> is_dirty srcdata" and "\<not> is_dirty dstdata"
    and "fst (replicate_fs sha1 src dst w) = Ok ()"
  obtains nd w4 where
    "replicate_files src dst (db srcdata) (map fst (db srcdata)) (db dstdata)
       (checked_world sha1 src dst w) = (Ok nd, w4)"
    and "write_db (os_path_join dst (str ''.sha1sums'')) nd (report_deletions (db srcdata) nd w4)
           = (Ok (), snd (replicate_fs sha1 src dst w))"
proof -
  note run = replicate_fs_clean_run[OF assms(1-4)]
  let ?w3 = "checked_world sha1 src dst w"
  obtain res w4 where rf: "replicate_files src dst (db srcdata) (map fst (db srcdata)) (db dstdata) ?w3
                             = (res, w4)"
    by (cases "replicate_files src dst (db srcdata) (map fst (db srcdata)) (db dstdata) ?w3")
  have "\<exists>nd. res = Ok nd"
  proof (cases res)
    case (Raise e)
    then have "fst (replicate_fs sha1 src dst w) = Raise e" using run rf by simp
    then show ?thesis using assms(5) by simp
  qed simp
  then obtain nd where nd: "res = Ok nd" by blast
  have "replicate_fs sha1 src dst w
          = write_db (os_path_join dst (str ''.sha1sums'')) nd (report_deletions (db srcdata) nd w4)"
    using run rf nd by simp
  then have "write_db (os_path_join dst (str ''.sha1sums'')) nd (report_deletions (db srcdata) nd w4)
               = (Ok (), snd (replicate_fs sha1 src dst w))"
    using assms(5) by (metis prod.collapse)
  then show ?thesis using that rf nd by blast
qed

lemma within_replicate_files:
  "within (\<Union>f \<in> set ks. copy_keys src dst f) (files w)
     (files (snd (replicate_files src dst srcdb ks nd w)))"
proof (induction ks arbitrary: nd w)
  case Nil
  show ?case by (simp add: within_refl)
next
  case (Cons srcfile rest)
  let ?T = "\<Union>f \<in> set (srcfile # rest). copy_keys src dst f"
  obtain nd' w' where i: "within (copy_keys src dst srcfile) (files w) (files w')"
    and r: "replicate_files src dst srcdb (srcfile # rest) nd w
              = replicate_files src dst srcdb rest nd' w'
            \<or> (\<exists>e. replicate_files src dst srcdb (srcfile # rest) nd w = (Raise e, w'))"
    using replicate_files_step[where w=w and src=src and dst=dst and srcdb=srcdb
                                 and srcfile=srcfile and rest=rest and nd=nd] by metis
  have i1: "within ?T (files w) (files w')" using i by (rule within_mono) auto
  from r show ?case
  proof
    assume e: "replicate_files src dst srcdb (srcfile # rest) nd w
                 = replicate_files src dst srcdb rest nd' w'"
    have "within (\<Union>f \<in> set rest. copy_keys src dst f) (files w')
            (files (snd (replicate_files src dst srcdb rest nd' w')))"
      by (rule Cons.IH)
    then have "within ?T (files w') (files (snd (replicate_files src dst srcdb rest nd' w')))"
      by (rule within_mono) auto
    then show ?thesis using within_trans[OF i1] e by simp
  next
    assume "\<exists>e. replicate_files src dst srcdb (srcfile # rest) nd w = (Raise e, w')"
    then show ?thesis using i1 by auto
  qed
qed

lemma within_replicate_fs:
  assumes "fst (check sha1 src True w) = Ok srcdata"
  shows "within ((\<Union>f \<in> fst ` set (db srcdata). copy_keys src dst f)
                 \<union> {k. resolve (os_path_join dst (str ''.sha1sums'')) = Some k})
           (files w) (files (snd (replicate_fs sha1 src dst w)))"
proof (cases "gates_pass sha1 src dst w")
  case False
  then show ?thesis using replicate_fs_gates within_refl by metis
next
  case True
  let ?T = "(\<Union>f \<in> fst ` set (db srcdata). copy_keys src dst f)
              \<union> {k. resolve (os_path_join dst (str ''.sha1sums'')) = Some k}"
  from True assms obtain dstdata where d: "fst (check sha1 dst True w) = Ok dstdata"
    and c: "\<not> is_dirty srcdata" "\<not> is_dirty dstdata"
    by (auto simp: gates_pass_def split: result.splits)
  note run = replicate_fs_clean_run[OF assms d c]
  let ?w3 = "checked_world sha1 src dst w"
  obtain res w4 where rf: "replicate_files src dst (db srcdata) (map fst (db srcdata)) (db dstdata) ?w3
                             = (res, w4)"
    by (cases "replicate_files src dst (db srcdata) (map fst (db srcdata)) (db dstdata) ?w3")
  have "within (\<Union>f \<in> set (map fst (db srcdata)). copy_keys src dst f) (files ?w3) (files w4)"
    using within_replicate_files[where w="?w3" and src=src and dst=dst and srcdb="db srcdata"
                                   and ks="map fst (db srcdata)" and nd="db dstdata"] rf
    by simp
  then have i4: "within ?T (files w) (files w4)"
    unfolding files_checked_world by (rule within_mono) auto
  show ?thesis
  proof (cases res)
    case (Raise e)
    then show ?thesis using run rf i4 by simp
  next
    case (Ok nd)
    have "within {k. resolve (os_path_join dst (str ''.sha1sums'')) = Some k}
            (files (report_deletions (db srcdata) nd w4))
            (files (snd (write_db (os_path_join dst (str ''.sha1sums'')) nd
                           (report_deletions (db srcdata) nd w4))))"
      by (rule within_write_db)
    then have "within ?T (files w4)
                 (files (snd (write_db (os_path_join dst (str ''.sha1sums'')) nd
                                (report_deletions (db srcdata) nd w4))))"
      by (simp add: within_mono)
    then show ?thesis using run rf Ok within_trans[OF i4] by simp
  qed
qed

lemma replicate_files_skip:
  assumes "\<not> needs_copy srcdb nd srcfile"
  shows "replicate_files src dst srcdb (srcfile # rest) nd w = replicate_files src dst srcdb rest nd w"
proof -
  have t: "truthy (map_of nd srcfile)" and e: "map_of nd srcfile = map_of srcdb srcfile"
    using assms by (auto simp: needs_copy_def)
  from t obtain h where h: "map_of nd srcfile = Some h" by (auto simp: truthy_def split: option.splits)
  then have s: "map_of srcdb srcfile = Some h" using e by simp
  show ?thesis using t h s by (simp add: Let_def)
qed

lemma within_replicate_files_needed:
  assumes "distinct ks"
  shows "within (\<Union>f \<in> {f \<in> set ks. needs_copy srcdb nd f}. copy_keys src dst f) (files w)
           (files (snd (replicate_files src dst srcdb ks nd w)))"
  using assms
proof (induction ks arbitrary: nd w)
  case Nil
  show ?case by (simp add: within_refl)
next
  case (Cons srcfile rest)
  let ?T = "\<Union>f \<in> {f \<in> set (srcfile # rest). needs_copy srcdb nd f}. copy_keys src dst f"
  have d: "distinct rest" and n: "srcfile \<notin> set rest" using Cons.prems by auto
  show ?case
  proof (cases "needs_copy srcdb nd srcfile")
    case False
    have "within (\<Union>f \<in> {f \<in> set rest. needs_copy srcdb nd f}. copy_keys src dst f) (files w)
            (files (snd (replicate_files src dst srcdb rest nd w)))"
      using Cons.IH[OF d] .
    then have "within ?T (files w) (files (snd (replicate_files src dst srcdb rest nd w)))"
      by (rule within_mono) auto
    then show ?thesis using replicate_files_skip[OF False] by simp
  next
    case True
    obtain nd' w' where i: "within (copy_keys src dst srcfile) (files w) (files w')"
      and m: "\<And>k. k \<noteq> srcfile \<Longrightarrow> map_of nd' k = map_of nd k"
      and r: "replicate_files src dst srcdb (srcfile # rest) nd w
                = replicate_files src dst srcdb rest nd' w'
              \<or> (\<exists>e. replicate_files src dst srcdb (srcfile # rest) nd w = (Raise e, w'))"
      using replicate_files_step[where w=w and src=src and dst=dst and srcdb=srcdb
                                   and srcfile=srcfile and rest=rest and nd=nd] by metis
    have i1: "within ?T (files w) (files w')" using i True by (rule_tac within_mono) auto
    from r show ?thesis
    proof
      assume e: "replicate_files src dst srcdb (srcfile # rest) nd w
                   = replicate_files src dst srcdb rest nd' w'"
      have same: "needs_copy srcdb nd' f = needs_copy srcdb nd f" if "f \<in> set rest" for f
      proof -
        have "f \<noteq> srcfile" using that n by blast
        then have "map_of nd' f = map_of nd f" by (rule m)
        then show ?thesis by (simp add: needs_copy_def)
      qed
      have "within (\<Union>f \<in> {f \<in> set rest. needs_copy srcdb nd' f}. copy_keys src dst f) (files w')
              (files (snd (replicate_files src dst srcdb rest nd' w')))"
        using Cons.IH[OF d] .
      then have "within ?T (files w') (files (snd (replicate_files src dst srcdb rest nd' w')))"
        using same by (rule_tac within_mono) auto
      then show ?thesis using within_trans[OF i1] e by simp
    next
      assume "\<exists>e. replicate_files src dst srcdb (srcfile # rest) nd w = (Raise e, w')"
      then show ?thesis using i1 by auto
    qed
  qed
qed

lemma within_replicate_fs_needed:
  assumes "fst (check sha1 src True w) = Ok srcdata" and "fst (check sha1 dst True w) = Ok dstdata"
  shows "within ((\<Union>f \<in> {f \<in> fst ` set (db srcdata). needs_copy (db srcdata) (db dstdata) f}.
                     copy_keys src dst f)
                 \<union> {k. resolve (os_path_join dst (str ''.sha1sums'')) = Some k})
           (files w) (files (snd (replicate_fs sha1 src dst w)))"
proof (cases "gates_pass sha1 src dst w")
  case False
  show ?thesis unfolding replicate_fs_gates[OF False] by (rule within_refl)
next
  case True
  define T where "T = (\<Union>f \<in> {f \<in> fst ` set (db srcdata). needs_copy (db srcdata) (db dstdata) f}.
                          copy_keys src dst f)
                       \<union> {k. resolve (os_path_join dst (str ''.sha1sums'')) = Some k}"
  have c: "\<not> is_dirty srcdata" "\<not> is_dirty dstdata"
    using True assms by (simp_all add: gates_pass_def)
  note run = replicate_fs_clean_run[OF assms c]
  let ?w3 = "checked_world sha1 src dst w"
  obtain w1 where "check sha1 src True w = (Ok srcdata, w1)"
    using assms(1) by (cases "check sha1 src True w") simp
  then have "fst (load_db (os_path_join src (str ''.sha1sums'')) w) = Ok (db srcdata)"
    by (rule check_Ok(1))
  then have dist: "distinct (map fst (db srcdata))" by (rule load_db_distinct)
  obtain res w4 where rf: "replicate_files src dst (db srcdata) (map fst (db srcdata)) (db dstdata) ?w3
                             = (res, w4)"
    by (cases "replicate_files src dst (db srcdata) (map fst (db srcdata)) (db dstdata) ?w3")
  have "within (\<Union>f \<in> {f \<in> set (map fst (db srcdata)). needs_copy (db srcdata) (db dstdata) f}.
                   copy_keys src dst f) (files ?w3)
          (files (snd (replicate_files src dst (db srcdata) (map fst (db srcdata)) (db dstdata) ?w3)))"
    using dist by (rule within_replicate_files_needed)
  then have "within (\<Union>f \<in> {f \<in> set (map fst (db srcdata)). needs_copy (db srcdata) (db dstdata) f}.
                   copy_keys src dst f) (files w) (files w4)"
    unfolding rf files_checked_world by (simp only: snd_conv)
  then have i4: "within T (files w) (files w4)"
    unfolding T_def by (rule within_mono) auto
  have "within T (files w) (files (snd (replicate_fs sha1 src dst w)))"
  proof (cases res)
    case (Raise e)
    have "replicate_fs sha1 src dst w = (Raise e, w4)" unfolding run rf Raise by simp
    then show ?thesis using i4 by simp
  next
    case (Ok nd)
    let ?w5 = "report_deletions (db srcdata) nd w4"
    have r: "replicate_fs sha1 src dst w = write_db (os_path_join dst (str ''.sha1sums'')) nd ?w5"
      unfolding run rf Ok by simp
    have "within {k. resolve (os_path_join dst (str ''.sha1sums'')) = Some k}
            (files ?w5) (files (snd (write_db (os_path_join dst (str ''.sha1sums'')) nd ?w5)))"
      by (rule within_write_db)
    then have "within T (files ?w5) (files (snd (write_db (os_path_join dst (str ''.sha1sums'')) nd ?w5)))"
      unfolding T_def by (rule within_mono) auto
    then have "within T (files w4) (files (snd (replicate_fs sha1 src dst w)))"
      unfolding r by (simp only: files_report_deletions)
    with i4 show ?thesis by (rule within_trans)
  qed
  then show ?thesis unfolding T_def .
qed

lemma replicate_fs_content_needed:
  assumes "fst (check sha1 src True w) = Ok srcdata" and "fst (check sha1 dst True w) = Ok dstdata"
    and "open_read (files w) p = Inr c"
  shows "open_read (files (snd (replicate_fs sha1 src dst w))) p = Inr c
       \<or> resolve p = resolve (os_path_join dst (str ''.sha1sums''))
       \<or> (\<exists>srcfile \<in> fst ` set (db srcdata).
             needs_copy (db srcdata) (db dstdata) srcfile \<and> copy_lands_on src dst srcfile p)"
proof -
  let ?t' = "files (snd (replicate_fs sha1 src dst w))"
  obtain k where k: "resolve p = Some k" "lookup (files w) k = Some (File c)"
    using assms(3) open_read_Inr by blast
  note i = within_replicate_fs_needed[OF assms(1,2)]
  show ?thesis
  proof (cases "k \<in> (\<Union>f \<in> {f \<in> fst ` set (db srcdata). needs_copy (db srcdata) (db dstdata) f}.
                         copy_keys src dst f)
                    \<union> {k. resolve (os_path_join dst (str ''.sha1sums'')) = Some k}")
    case False
    then have "lookup ?t' k = lookup (files w) k \<or> (lookup (files w) k = None \<and> lookup ?t' k = Some Dir)"
      using i unfolding within_def by blast
    then have "lookup ?t' k = Some (File c)" using k(2) by auto
    then have "open_read ?t' p = Inr c" using k(1) open_read_Inr by blast
    then show ?thesis by blast
  next
    case True
    then show ?thesis
    proof
      assume "k \<in> (\<Union>f \<in> {f \<in> fst ` set (db srcdata). needs_copy (db srcdata) (db dstdata) f}.
                      copy_keys src dst f)"
      then obtain f where f: "f \<in> fst ` set (db srcdata)" "needs_copy (db srcdata) (db dstdata) f"
        "k \<in> copy_keys src dst f" by blast
      then have "copy_lands_on src dst f p" using k(1) by (auto simp: copy_keys_def copy_lands_on_def)
      then show ?thesis using f(1,2) by blast
    next
      assume "k \<in> {k. resolve (os_path_join dst (str ''.sha1sums'')) = Some k}"
      then show ?thesis using k(1) by simp
    qed
  qed
qed

section \<open>Runs on the concrete tree\<close>

lemma check_ex_True: "fst (check sha1_ex (str ''d'') True world_ex) = Ok diff_ex"
  using check_result_files_only[of world_ex world_ex sha1_ex "str ''d''" True False] check_ex
  by simp

lemma check_backup_ex: "fst (check sha1_ex (str ''backup'') True world_ex) = Ok clean_diff"
  by code_simp

lemma is_dirty_diff_ex: "is_dirty diff_ex"
  by code_simp

lemma not_affirmative_n: "\<not> (startswith (str ''n'') (str ''y'') \<or> startswith (str ''n'') (str ''Y''))"
  by code_simp

lemma gates_closed_ex: "\<not> gates_pass sha1_ex (str ''d'') (str ''backup'') world_ex"
  by (simp add: gates_pass_def check_ex_True check_backup_ex is_dirty_diff_ex)

lemma stray_ex:
  "[str ''sub'', str ''x.sha1sums''] \<in> set (walk_files (files world_ex) (str ''d''))
   \<and> endswith (last [str ''sub'', str ''x.sha1sums'']) (str ''.sha1sums'')"
  by code_simp

lemma write_db_ex:
  "fst (write_db (str ''d/.sha1sums'') db_ex dir_ex) = Ok ()
   \<and> distinct (map fst db_ex)
   \<and> (\<forall>k \<in> fst ` set db_ex. TAB \<notin> set k \<and> line_safe_key k)
   \<and> (\<forall>v \<in> snd ` set db_ex. line_safe_digest v)"
  by code_simp

lemma commit_ex_parts:
  "(startswith (str ''y'') (str ''y'') \<or> startswith (str ''y'') (str ''Y''))
   \<and> del_keys (deletions diff_ex) (set_keys (changes diff_ex) (set_keys (additions diff_ex) (db diff_ex)))
       = Inr committed_ex
   \<and> open_write (files world_ex) (os_path_join (str ''d'') (str ''.sha1sums'')) (db_text committed_ex)
       = Inr (AList.update [str ''d'', str ''.sha1sums''] (File (db_text committed_ex)) tree_ex)"
  by code_simp

lemma commit_ex: "fst (interactive_check sha1_ex (str ''d'') (str ''y'') world_ex) = Ok ()"
  using interactive_check_commit_run(1)[OF check_ex_True] commit_ex_parts by blast

lemma valid_ex:
  "valid_fs (files world_ex)
   \<and> (\<forall>p \<in> set (filelist_of (files world_ex) (str ''d'')). line_safe_key p)"
  by code_simp

lemma space_ex_first_check:
  "fst (check sha1_ex (str ''d'') True space_ex)
     = Ok \<lparr>db = [], deletions = [], additions = [(str ''b '', hexdigest (sha1_ex (str ''x'')))],
            changes = []\<rparr>"
  by code_simp

lemma space_ex_parts:
  "del_keys [] (set_keys [] (set_keys [(str ''b '', hexdigest (sha1_ex (str ''x'')))] []))
       = Inr [(str ''b '', hexdigest (sha1_ex (str ''x'')))]
   \<and> open_write (files space_ex) (os_path_join (str ''d'') (str ''.sha1sums''))
         (db_text [(str ''b '', hexdigest (sha1_ex (str ''x'')))])
       = Inr (files space_ex @ [([str ''d'', str ''.sha1sums''],
                File (db_text [(str ''b '', hexdigest (sha1_ex (str ''x'')))]))])"
  by code_simp

lemma space_ex_second_check:
  "fst (check sha1_ex (str ''d'') True
         \<lparr>files = files space_ex @ [([str ''d'', str ''.sha1sums''],
                File (db_text [(str ''b '', hexdigest (sha1_ex (str ''x'')))]))],
          stdout = []\<rparr>)
     = Ok \<lparr>db = [(str ''b'', hexdigest (sha1_ex (str ''x'')))],
            deletions = [str ''b''],
            additions = [(str ''b '', hexdigest (sha1_ex (str ''x'')))],
            changes = []\<rparr>"
  by code_simp

lemma rep_ex_checks:
  "fst (check sha1_ex (str ''src'') True rep_ex) = Ok srcdata_rep
   \<and> fst (check sha1_ex (str ''dst'') True rep_ex) = Ok dstdata_rep
   \<and> \<not> is_dirty srcdata_rep \<and> \<not> is_dirty dstdata_rep
   \<and> str ''z.txt'' \<in> fst ` set (db dstdata_rep)
   \<and> str ''z.txt'' \<notin> fst ` set (db srcdata_rep)"
  by code_simp

lemma rep_ex_loop:
  "map fst (db srcdata_rep) = [str ''a.txt'']
   \<and> map_of (db srcdata_rep) (str ''a.txt'') = Some (hexdigest (sha1_ex (str ''hello'')))
   \<and> map_of (db dstdata_rep) (str ''a.txt'') = Some (hexdigest (sha1_ex (str ''hello'')))
   \<and> truthy (Some (hexdigest (sha1_ex (str ''hello''))))"
  by code_simp

lemma rep_ex_write:
  "open_write (files rep_ex) (os_path_join (str ''dst'') (str ''.sha1sums'')) (db_text (db dstdata_rep))
     = Inr (AList.update [str ''dst'', str ''.sha1sums''] (File (db_text (db dstdata_rep))) (files rep_ex))
   \<and> open_read (files rep_ex) (str ''dst/z.txt'') = Inr (str ''zed'')"
  by code_simp

lemma conflict_ex_checks:
  "valid_fs (files conflict_ex)
   \<and> fst (check sha1_ex (str ''src'') True conflict_ex) = Ok srcdata_conflict
   \<and> fst (check sha1_ex (str ''dst'') True conflict_ex) = Ok dstdata_conflict
   \<and> \<not> is_dirty srcdata_conflict \<and> \<not> is_dirty dstdata_conflict
   \<and> str ''a'' \<in> fst ` set (db dstdata_conflict)
   \<and> str ''a'' \<notin> fst ` set (db srcdata_conflict)"
  by code_simp

lemma conflict_ex_loop:
  "map fst (db srcdata_conflict) = [str ''a/b'']
   \<and> map_of (db srcdata_conflict) (str ''a/b'') = Some (hexdigest (sha1_ex (str ''hello'')))
   \<and> \<not> truthy (map_of (db dstdata_conflict) (str ''a/b''))
   \<and> make_parents (os_path_join (str ''dst'') (str ''a/b'')) (files conflict_ex)
       = (Ok (), files conflict_ex)
   \<and> shutil_copy2 (files conflict_ex) (os_path_join (str ''src'') (str ''a/b''))
         (os_path_join (str ''dst'') (str ''a/b'')) = Inl NotADirectoryError"
  by code_simp

lemma conflict_ex_stdout:
  "refusal (str ''a'')
     \<notin> set (stdout (checked_world sha1_ex (str ''src'') (str ''dst'') conflict_ex)
              @ [join_with (str '' '')
                   [str ''File'', str ''a/b'', str ''added in src filesystem, replicating.''],
                 join_with (str '' '')
                   [os_path_join (str ''dst'') (str ''a/b''), str ''->'',
                    os_path_join (str ''src'') (str ''a/b'')]])"
  by code_simp

lemma rep_ex_run:
  "fst (replicate_fs sha1_ex (str ''src'') (str ''dst'') rep_ex) = Ok ()"
proof -
  let ?w3 = "checked_world sha1_ex (str ''src'') (str ''dst'') rep_ex"
  have c: "fst (check sha1_ex (str ''src'') True rep_ex) = Ok srcdata_rep"
    "fst (check sha1_ex (str ''dst'') True rep_ex) = Ok dstdata_rep"
    "\<not> is_dirty srcdata_rep" "\<not> is_dirty dstdata_rep"
    using rep_ex_checks by blast+
  have l: "map fst (db srcdata_rep) = [str ''a.txt'']"
    "map_of (db srcdata_rep) (str ''a.txt'') = Some (hexdigest (sha1_ex (str ''hello'')))"
    "map_of (db dstdata_rep) (str ''a.txt'') = Some (hexdigest (sha1_ex (str ''hello'')))"
    "truthy (Some (hexdigest (sha1_ex (str ''hello''))))"
    using rep_ex_loop by blast+
  have rf: "replicate_files (str ''src'') (str ''dst'') (db srcdata_rep) (map fst (db srcdata_rep))
              (db dstdata_rep) ?w3 = (Ok (db dstdata_rep), ?w3)"
    by (simp add: l Let_def)
  have ow: "open_write (files rep_ex) (os_path_join (str ''dst'') (str ''.sha1sums''))
              (db_text (db dstdata_rep))
            = Inr (AList.update [str ''dst'', str ''.sha1sums''] (File (db_text (db dstdata_rep)))
                     (files rep_ex))"
    using rep_ex_write by blast
  show ?thesis
    unfolding replicate_fs_clean_run[OF c] rf
    by (simp add: write_db_def files_checked_world ow)
qed

lemma overwrite_ex_checks:
  "valid_fs (files overwrite_ex)
   \<and> fst (check sha1_ex (str ''src'') True overwrite_ex) = Ok srcdata_overwrite
   \<and> fst (check sha1_ex (str ''dst'') True overwrite_ex) = Ok dstdata_overwrite
   \<and> \<not> is_dirty srcdata_overwrite \<and> \<not> is_dirty dstdata_overwrite
   \<and> str ''a/a'' \<in> fst ` set (db dstdata_overwrite)
   \<and> str ''a/a'' \<notin> fst ` set (db srcdata_overwrite)"
  by code_simp

lemma overwrite_ex_loop:
  "map fst (db srcdata_overwrite) = [str ''a'']
   \<and> map_of (db srcdata_overwrite) (str ''a'') = Some (hexdigest (sha1_ex (str ''hello'')))
   \<and> \<not> truthy (map_of (db dstdata_overwrite) (str ''a''))
   \<and> make_parents (os_path_join (str ''dst'') (str ''a'')) (files overwrite_ex)
       = (Ok (), files overwrite_ex)
   \<and> shutil_copy2 (files overwrite_ex) (os_path_join (str ''src'') (str ''a''))
         (os_path_join (str ''dst'') (str ''a'')) = Inr copied_ex"
  by code_simp

lemma overwrite_ex_end:
  "open_write copied_ex (os_path_join (str ''dst'') (str ''.sha1sums''))
     (db_text (AList.update (str ''a'') (hexdigest (sha1_ex (str ''hello''))) (db dstdata_overwrite)))
     = Inr (AList.update [str ''dst'', str ''.sha1sums'']
              (File (db_text (AList.update (str ''a'') (hexdigest (sha1_ex (str ''hello'')))
                                (db dstdata_overwrite))))
              copied_ex)
   \<and> open_read (files overwrite_ex) (str ''dst/a/a'') = Inr (str ''zed'')
   \<and> open_read (AList.update [str ''dst'', str ''.sha1sums'']
              (File (db_text (AList.update (str ''a'') (hexdigest (sha1_ex (str ''hello'')))
                                (db dstdata_overwrite))))
              copied_ex) (str ''dst/a/a'') = Inr (str ''hello'')
   \<and> str ''a/a'' \<in> fst ` set (AList.update (str ''a'') (hexdigest (sha1_ex (str ''hello'')))
                                 (db dstdata_overwrite))
   \<and> \<not> truthy (map_of (db srcdata_overwrite) (str ''a/a''))"
  by code_simp

lemma overwrite_ex_run:
  "fst (replicate_fs sha1_ex (str ''src'') (str ''dst'') overwrite_ex) = Ok ()
   \<and> refusal (str ''a/a'')
       \<in> set (stdout (snd (replicate_fs sha1_ex (str ''src'') (str ''dst'') overwrite_ex)))
   \<and> open_read (files (snd (replicate_fs sha1_ex (str ''src'') (str ''dst'') overwrite_ex)))
         (str ''dst/a/a'') = Inr (str ''hello'')"
proof -
  let ?w3 = "checked_world sha1_ex (str ''src'') (str ''dst'') overwrite_ex"
  let ?w2 = "py_print [os_path_join (str ''dst'') (str ''a''), str ''->'',
                       os_path_join (str ''src'') (str ''a'')]
               (py_print [str ''File'', str ''a'', str ''added in src filesystem, replicating.''] ?w3)"
  let ?nd = "AList.update (str ''a'') (hexdigest (sha1_ex (str ''hello''))) (db dstdata_overwrite)"
  let ?t2 = "AList.update [str ''dst'', str ''.sha1sums''] (File (db_text ?nd)) copied_ex"
  have c: "fst (check sha1_ex (str ''src'') True overwrite_ex) = Ok srcdata_overwrite"
    "fst (check sha1_ex (str ''dst'') True overwrite_ex) = Ok dstdata_overwrite"
    "\<not> is_dirty srcdata_overwrite" "\<not> is_dirty dstdata_overwrite"
    using overwrite_ex_checks by blast+
  have l: "map fst (db srcdata_overwrite) = [str ''a'']"
    "map_of (db srcdata_overwrite) (str ''a'') = Some (hexdigest (sha1_ex (str ''hello'')))"
    "\<not> truthy (map_of (db dstdata_overwrite) (str ''a''))"
    "make_parents (os_path_join (str ''dst'') (str ''a'')) (files overwrite_ex)
       = (Ok (), files overwrite_ex)"
    "shutil_copy2 (files overwrite_ex) (os_path_join (str ''src'') (str ''a''))
         (os_path_join (str ''dst'') (str ''a'')) = Inr copied_ex"
    using overwrite_ex_loop by blast+
  have e: "open_write copied_ex (os_path_join (str ''dst'') (str ''.sha1sums'')) (db_text ?nd) = Inr ?t2"
    "open_read ?t2 (str ''dst/a/a'') = Inr (str ''hello'')"
    "str ''a/a'' \<in> fst ` set ?nd"
    "\<not> truthy (map_of (db srcdata_overwrite) (str ''a/a''))"
    using overwrite_ex_end by blast+
  have rf: "replicate_files (str ''src'') (str ''dst'') (db srcdata_overwrite)
              (map fst (db srcdata_overwrite)) (db dstdata_overwrite) ?w3
            = (Ok ?nd, ?w2\<lparr>files := copied_ex\<rparr>)"
    by (simp add: l Let_def files_checked_world)
  let ?w5 = "report_deletions (db srcdata_overwrite) ?nd (?w2\<lparr>files := copied_ex\<rparr>)"
  have run: "replicate_fs sha1_ex (str ''src'') (str ''dst'') overwrite_ex
               = (Ok (), ?w5\<lparr>files := ?t2\<rparr>)"
    unfolding replicate_fs_clean_run[OF c] rf by (simp add: write_db_def e(1))
  have "refusal (str ''a/a'') \<in> set (stdout ?w5)"
    unfolding stdout_report_deletions using e(3,4) by blast
  then show ?thesis using run e(2) by simp
qed

lemma rep_ex_lands:
  "resolve (str ''dst/z.txt'') \<noteq> resolve (os_path_join (str ''dst'') (str ''.sha1sums''))
   \<and> \<not> (\<exists>srcfile \<in> fst ` set (db srcdata_rep).
           needs_copy (db srcdata_rep) (db dstdata_rep) srcfile
           \<and> copy_lands_on (str ''src'') (str ''dst'') srcfile (str ''dst/z.txt''))"
  by code_simp

lemma overwrite_ex_before:
  "open_read (files overwrite_ex) (str ''dst/a/a'') = Inr (str ''zed'')
   \<and> os_path_join (str ''dst'') (str ''a/a'') = str ''dst/a/a''"
  by code_simp

lemma listed_ex_check:
  "[str ''x.sha1sums''] \<in> set (walk_files (files listed_ex) (str ''d''))
   \<and> endswith (last [str ''x.sha1sums'']) (str ''.sha1sums'')
   \<and> join_with [SLASH] [str ''x.sha1sums''] = str ''x.sha1sums''
   \<and> valid_fs (files listed_ex)
   \<and> fst (check sha1_ex (str ''d'') True listed_ex) = Ok listed_diff
   \<and> str ''x.sha1sums'' \<in> fst ` set (db listed_diff)
   \<and> str ''x.sha1sums'' \<in> set (deletions listed_diff)
   \<and> is_dirty listed_diff"
  by code_simp

lemma trailing_ex_first_check:
  "fst (check sha1_ex (str ''d'') True trailing_ex)
     = Ok \<lparr>db = [], deletions = [],
            additions = [(str ''x.sha1sums '', hexdigest (sha1_ex (str ''x'')))], changes = []\<rparr>"
  by code_simp

lemma trailing_ex_parts:
  "[str ''x.sha1sums''] \<in> set (walk_files (files trailing_ex) (str ''d''))
   \<and> valid_fs (files trailing_ex)
   \<and> del_keys [] (set_keys [] (set_keys [(str ''x.sha1sums '', hexdigest (sha1_ex (str ''x'')))] []))
       = Inr [(str ''x.sha1sums '', hexdigest (sha1_ex (str ''x'')))]
   \<and> open_write (files trailing_ex) (os_path_join (str ''d'') (str ''.sha1sums''))
         (db_text [(str ''x.sha1sums '', hexdigest (sha1_ex (str ''x'')))])
       = Inr (files trailing_ex @ [([str ''d'', str ''.sha1sums''],
                File (db_text [(str ''x.sha1sums '', hexdigest (sha1_ex (str ''x'')))]))])"
  by code_simp

lemma trailing_ex_second_check:
  "fst (check sha1_ex (str ''d'') True
         \<lparr>files = files trailing_ex @ [([str ''d'', str ''.sha1sums''],
                File (db_text [(str ''x.sha1sums '', hexdigest (sha1_ex (str ''x'')))]))],
          stdout = []\<rparr>)
     = Ok trailing_diff"
  by code_simp

section \<open>The claims\<close>

text \<open>
  C1. If the diff of the source or of the destination against its own hash database
  is not empty, \<open>replicate\<close> leaves the whole file system as it was: no file is
  copied, and no sidecar file is written.
\<close>

theorem replicate_refuses_dirty_trees:
  assumes "(fst (check sha1 src True w) = Ok srcdata \<and> is_dirty srcdata)
         \<or> (fst (check sha1 dst True w) = Ok dstdata \<and> is_dirty dstdata)"
  shows "files (snd (replicate_fs sha1 src dst w)) = files w"
proof (rule replicate_fs_gates)
  show "\<not> gates_pass sha1 src dst w"
    using assms by (auto simp: gates_pass_def split: result.splits)
qed

theorem replicate_refuses_dirty_trees_witness:
  "files (snd (replicate_fs sha1_ex (str ''d'') (str ''backup'') world_ex)) = files world_ex
   \<and> files (snd (replicate_fs sha1_ex (str ''backup'') (str ''d'') world_ex)) = files world_ex"
  using replicate_refuses_dirty_trees[of sha1_ex "str ''d''" world_ex diff_ex "str ''backup''" clean_diff]
        replicate_refuses_dirty_trees[of sha1_ex "str ''backup''" world_ex clean_diff "str ''d''" diff_ex]
        check_ex_True is_dirty_diff_ex
  by simp

text \<open>
  C2. Whenever \<open>check\<close> returns a diff, every path is classified exactly once: the
  paths of the additions, of the changes and the unchanged paths together are the paths
  of the scan; the paths of the changes, the unchanged paths and the deletions together
  are the keys of the hash database; the additions, the changes, the deletions and the
  unchanged paths are pairwise disjoint, and no path occurs twice in a collection.
\<close>

theorem check_classifies_every_path:
  assumes "check sha1 directory log w = (Ok r, w')"
  shows "fst ` set (additions r) \<union> fst ` set (changes r)
           \<union> set (unchanged_files sha1 (files w) directory (db r) (filelist_of (files w) directory))
         = set (filelist_of (files w) directory)
       \<and> fst ` set (changes r)
           \<union> set (unchanged_files sha1 (files w) directory (db r) (filelist_of (files w) directory))
           \<union> set (deletions r)
         = fst ` set (db r)
       \<and> fst ` set (additions r) \<inter> fst ` set (changes r) = {}
       \<and> fst ` set (additions r) \<inter> set (deletions r) = {}
       \<and> fst ` set (changes r) \<inter> set (deletions r) = {}
       \<and> set (unchanged_files sha1 (files w) directory (db r) (filelist_of (files w) directory))
           \<inter> (fst ` set (additions r) \<union> fst ` set (changes r) \<union> set (deletions r)) = {}
       \<and> distinct (map fst (additions r)) \<and> distinct (map fst (changes r))
       \<and> distinct (deletions r)"
proof -
  let ?S = "filelist_of (files w) directory"
  note c = check_Ok[OF assms]
  have dS: "distinct ?S" by (rule distinct_filelist_of)
  have dD: "distinct (map fst (db r))" using load_db_distinct c(1) by blast
  have keys: "\<And>p. (map_of (db r) p = None) = (p \<notin> fst ` set (db r))"
    by (rule map_of_eq_None_iff)
  have some: "\<And>p v. map_of (db r) p = Some v \<Longrightarrow> p \<in> fst ` set (db r)"
    by (metis keys option.distinct(1))
  have A: "fst ` set (additions r) = {p \<in> set ?S. p \<notin> fst ` set (db r)}"
    by (simp add: c(2) fst_set_new_files keys)
  have C: "fst ` set (changes r) = {p \<in> set ?S. p \<in> fst ` set (db r)
             \<and> map_of (db r) p \<noteq> Some (digest_of sha1 (files w) directory p)}"
    by (simp add: c(3) fst_set_changed_files keys)
  have U: "set (unchanged_files sha1 (files w) directory (db r) ?S)
             = {p \<in> set ?S. map_of (db r) p = Some (digest_of sha1 (files w) directory p)}"
    by (simp add: unchanged_files_def)
  have X: "set (deletions r) = {p \<in> fst ` set (db r). p \<notin> set ?S}"
    by (simp add: c(4))
  have 1: "fst ` set (additions r) \<union> fst ` set (changes r)
           \<union> set (unchanged_files sha1 (files w) directory (db r) ?S) = set ?S"
    unfolding A C U using some by blast
  have 2: "fst ` set (changes r) \<union> set (unchanged_files sha1 (files w) directory (db r) ?S)
           \<union> set (deletions r) = fst ` set (db r)"
    unfolding C U X using some by blast
  have 3: "fst ` set (additions r) \<inter> fst ` set (changes r) = {}" unfolding A C by blast
  have 4: "fst ` set (additions r) \<inter> set (deletions r) = {}" unfolding A X by blast
  have 5: "fst ` set (changes r) \<inter> set (deletions r) = {}" unfolding C X by blast
  have 6: "set (unchanged_files sha1 (files w) directory (db r) ?S)
           \<inter> (fst ` set (additions r) \<union> fst ` set (changes r) \<union> set (deletions r)) = {}"
    unfolding A C U X using some by blast
  have 7: "distinct (map fst (additions r))" by (simp add: c(2) map_fst_new_files dS)
  have 8: "distinct (map fst (changes r))" by (simp add: c(3) map_fst_changed_files dS)
  have 9: "distinct (deletions r)" by (simp add: c(4) dD)
  show ?thesis using 1 2 3 4 5 6 7 8 9 by (intro conjI)
qed

theorem check_classifies_every_path_witness:
  "fst ` set (additions diff_ex) \<union> fst ` set (changes diff_ex)
     \<union> set (unchanged_files sha1_ex (files world_ex) (str ''d'') (db diff_ex)
              (filelist_of (files world_ex) (str ''d'')))
   = set (filelist_of (files world_ex) (str ''d''))
 \<and> fst ` set (changes diff_ex)
     \<union> set (unchanged_files sha1_ex (files world_ex) (str ''d'') (db diff_ex)
              (filelist_of (files world_ex) (str ''d'')))
     \<union> set (deletions diff_ex)
   = fst ` set (db diff_ex)
 \<and> fst ` set (additions diff_ex) \<inter> fst ` set (changes diff_ex) = {}
 \<and> fst ` set (additions diff_ex) \<inter> set (deletions diff_ex) = {}
 \<and> fst ` set (changes diff_ex) \<inter> set (deletions diff_ex) = {}
 \<and> set (unchanged_files sha1_ex (files world_ex) (str ''d'') (db diff_ex)
          (filelist_of (files world_ex) (str ''d'')))
     \<inter> (fst ` set (additions diff_ex) \<union> fst ` set (changes diff_ex)
          \<union> set (deletions diff_ex)) = {}
 \<and> distinct (map fst (additions diff_ex)) \<and> distinct (map fst (changes diff_ex))
 \<and> distinct (deletions diff_ex)"
  using check_ex by (rule check_classifies_every_path)

text \<open>
  C3, as stated, fails. The directory \<open>d\<close> holds one file, named \<open>b \<close> with a
  space at its end. The commit succeeds, and the check that follows reads the key
  \<open>b\<close> from the sidecar file: it reports \<open>b \<close> as an addition and \<open>b\<close> as a
  deletion.
\<close>

theorem commit_then_rescan_counterexample:
  "valid_fs (files space_ex)
   \<and> fst (interactive_check sha1_ex (str ''d'') (str ''y'') space_ex) = Ok ()
   \<and> fst (check sha1_ex (str ''d'') True
            (snd (interactive_check sha1_ex (str ''d'') (str ''y'') space_ex)))
       = Ok \<lparr>db = [(str ''b'', hexdigest (sha1_ex (str ''x'')))],
              deletions = [str ''b''],
              additions = [(str ''b '', hexdigest (sha1_ex (str ''x'')))],
              changes = []\<rparr>"
proof -
  let ?r = "\<lparr>db = [], deletions = [], additions = [(str ''b '', hexdigest (sha1_ex (str ''x'')))],
             changes = []\<rparr>"
  let ?t' = "files space_ex @ [([str ''d'', str ''.sha1sums''],
                File (db_text [(str ''b '', hexdigest (sha1_ex (str ''x'')))]))]"
  have y: "startswith (str ''y'') (str ''y'') \<or> startswith (str ''y'') (str ''Y'')"
    using commit_ex_parts by blast
  have dk: "del_keys (deletions ?r) (set_keys (changes ?r) (set_keys (additions ?r) (db ?r)))
              = Inr [(str ''b '', hexdigest (sha1_ex (str ''x'')))]"
    using space_ex_parts by simp
  have ow: "open_write (files space_ex) (os_path_join (str ''d'') (str ''.sha1sums''))
              (db_text [(str ''b '', hexdigest (sha1_ex (str ''x'')))]) = Inr ?t'"
    using space_ex_parts by blast
  note run = interactive_check_commit_run[OF space_ex_first_check y dk ow]
  have v: "valid_fs (files space_ex)" by code_simp
  have "fst (check sha1_ex (str ''d'') True
              (snd (interactive_check sha1_ex (str ''d'') (str ''y'') space_ex)))
        = fst (check sha1_ex (str ''d'') True \<lparr>files = ?t', stdout = []\<rparr>)"
    by (rule check_result_files_only) (simp add: run(2))
  then show ?thesis using v run(1) space_ex_second_check by simp
qed

text \<open>
  C3, as amended. In a file system with well-formed names, when \<open>interactive_check\<close>
  returns normally (the user answered yes and the sidecar file could be written) and
  no path of the scan is empty, has a line break or ends in a whitespace character, the
  check that follows on the resulting file system returns a diff with no additions, no
  changes and no deletions.
\<close>

theorem commit_then_rescan_is_clean:
  assumes "fst (interactive_check sha1 directory commit w) = Ok ()"
    and "valid_fs (files w)"
    and "\<forall>p \<in> set (filelist_of (files w) directory). line_safe_key p"
  shows "\<exists>r. fst (check sha1 directory True (snd (interactive_check sha1 directory commit w))) = Ok r
             \<and> additions r = [] \<and> changes r = [] \<and> deletions r = []"
proof -
  let ?w' = "snd (interactive_check sha1 directory commit w)"
  let ?sumfile = "os_path_join directory (str ''.sha1sums'')"
  let ?S = "filelist_of (files w) directory"
  let ?dg = "digest_of sha1 (files w) directory"
  obtain r w1 hashdb w7 where c: "check sha1 directory True w = (Ok r, w1)"
    and dk: "del_keys (deletions r) (set_keys (changes r) (set_keys (additions r) (db r))) = Inr hashdb"
    and f7: "files w7 = files w"
    and wr: "write_db ?sumfile hashdb w7 = (Ok (), ?w')"
    using interactive_check_committed[OF assms(1)] by blast
  have rd: "readable sha1 (files w) directory ?S" using check_Ok(5)[OF c] .
  have ow: "open_write (files w) ?sumfile (db_text hashdb) = Inr (files ?w')"
    using write_db_Ok(1)[OF wr] f7 by simp
  note scan = scan_after_sidecar_write[OF assms(2) ow rd]
  have M: "\<And>p. map_of hashdb p = (if p \<in> set ?S then Some (?dg p) else None)"
    using committed_db(1)[OF c dk] .
  have dH: "distinct (map fst hashdb)" using committed_db(2)[OF c dk] .
  have safe: "list_all (\<lambda>(k, v). line_safe_key k \<and> line_safe_digest v) hashdb"
    unfolding list_all_iff
  proof
    fix e assume e: "e \<in> set hashdb"
    obtain k v where kv: "e = (k, v)" by (cases e)
    have "map_of hashdb k = Some v" using e kv dH by simp
    then have k: "k \<in> set ?S" and v: "v = ?dg k" using M[of k] by (auto split: if_splits)
    have "line_safe_key k" using assms(3) k by blast
    moreover have "line_safe_digest v" unfolding v using readable_digest_safe[OF rd k] .
    ultimately show "case e of (k, v) \<Rightarrow> line_safe_key k \<and> line_safe_digest v" using kv by simp
  qed
  have ld: "fst (load_db ?sumfile ?w') = Ok hashdb" using load_after_write[OF wr dH safe] .
  have rd': "readable sha1 (files ?w') directory (filelist_of (files ?w') directory)"
    using scan(1,2) by simp
  let ?r = "\<lparr>db = hashdb,
             deletions = filter (\<lambda>f. f \<notin> set ?S) (map fst hashdb),
             additions = new_files sha1 (files ?w') directory hashdb ?S,
             changes = changed_files sha1 (files ?w') directory hashdb ?S\<rparr>"
  have res: "fst (check sha1 directory True ?w') = Ok ?r"
    using check_from_parts[OF ld rd', of True] scan(1) by simp
  have keys: "\<And>k. k \<in> set (map fst hashdb) \<Longrightarrow> k \<in> set ?S"
  proof -
    fix k assume "k \<in> set (map fst hashdb)"
    then have "map_of hashdb k \<noteq> None" by (simp add: map_of_eq_None_iff)
    then show "k \<in> set ?S" using M[of k] by (auto split: if_splits)
  qed
  have 1: "deletions ?r = []" using keys by (auto simp: filter_empty_conv)
  have 2: "additions ?r = []" using M by (simp add: new_files_def filter_empty_conv)
  have 3: "changes ?r = []" using M scan(3) by (simp add: changed_files_def filter_empty_conv)
  show ?thesis using res 1 2 3 by blast
qed

theorem commit_then_rescan_is_clean_witness:
  "\<exists>r. fst (check sha1_ex (str ''d'') True
              (snd (interactive_check sha1_ex (str ''d'') (str ''y'') world_ex))) = Ok r
       \<and> additions r = [] \<and> changes r = [] \<and> deletions r = []"
  using commit_ex valid_ex by (intro commit_then_rescan_is_clean) blast+

text \<open>
  C4, as stated, fails. The key \<open>a \<close> (with a space at its end) has no tab, and
  the database read back has the key \<open>a\<close> instead: \<open>rstrip\<close> at line 53 removes
  the space with the line break. A key with a line break in it has no tab either, and
  reading the file back raises ValueError at line 54.
\<close>

theorem load_db_after_write_db_counterexample:
  "TAB \<notin> set (str ''a '')
   \<and> fst (write_db (str ''d/.sha1sums'') [(str ''a '', hexdigest 0)] dir_ex) = Ok ()
   \<and> fst (load_db (str ''d/.sha1sums'')
             (snd (write_db (str ''d/.sha1sums'') [(str ''a '', hexdigest 0)] dir_ex)))
       = Ok [(str ''a'', hexdigest 0)]
   \<and> TAB \<notin> set (str ''a'' @ [NL] @ str ''b'')
   \<and> fst (write_db (str ''d/.sha1sums'') [(str ''a'' @ [NL] @ str ''b'', hexdigest 0)] dir_ex) = Ok ()
   \<and> fst (load_db (str ''d/.sha1sums'')
             (snd (write_db (str ''d/.sha1sums'') [(str ''a'' @ [NL] @ str ''b'', hexdigest 0)] dir_ex)))
       = Raise ValueError"
  by code_simp

text \<open>
  C4, as amended. For every database (distinct keys) whose keys have no tab, are not
  empty, have no line break (\<open>\n\<close>, \<open>\r\<close>) and do not end in a whitespace
  character, and whose digests have no tab and no line break, a \<open>write_db\<close> that
  succeeds followed by \<open>load_db\<close> of the same file returns the database itself, with
  the same pairs in the same order.
\<close>

theorem load_db_after_write_db:
  assumes "write_db sumfile hashdb w = (Ok (), w')"
    and "distinct (map fst hashdb)"
    and "\<forall>k \<in> fst ` set hashdb. TAB \<notin> set k \<and> line_safe_key k"
    and "\<forall>v \<in> snd ` set hashdb. line_safe_digest v"
  shows "fst (load_db sumfile w') = Ok hashdb"
proof (rule load_after_write[OF assms(1,2)])
  show "list_all (\<lambda>(k, v). line_safe_key k \<and> line_safe_digest v) hashdb"
    unfolding list_all_iff
  proof
    fix e assume e: "e \<in> set hashdb"
    obtain k v where kv: "e = (k, v)" by (cases e)
    have "k \<in> fst ` set hashdb" "v \<in> snd ` set hashdb" using e kv by force+
    then have "line_safe_key k" "line_safe_digest v" using assms(3,4) by blast+
    then show "case e of (k, v) \<Rightarrow> line_safe_key k \<and> line_safe_digest v"
      using kv by simp
  qed
qed

theorem load_db_after_write_db_witness:
  "fst (load_db (str ''d/.sha1sums'') (snd (write_db (str ''d/.sha1sums'') db_ex dir_ex))) = Ok db_ex"
proof -
  have "write_db (str ''d/.sha1sums'') db_ex dir_ex
          = (Ok (), snd (write_db (str ''d/.sha1sums'') db_ex dir_ex))"
    using write_db_ex by (metis prod.collapse)
  then show ?thesis using write_db_ex by (intro load_db_after_write_db) blast+
qed

text \<open>
  C5 (the code at a failing input). With \<open>dst\<close> present and \<open>dst/a\<close> missing,
  \<open>make_parents("dst/a/b/c.txt")\<close> calls \<open>os.mkdir("dst/a/b")\<close> first, which raises
  FileNotFoundError: no directory is made. With one missing level it succeeds.
\<close>

theorem make_parents_two_levels_fails:
  "make_parents (str ''dst/a/b/c.txt'') [([str ''dst''], Dir)]
       = (Raise FileNotFoundError, [([str ''dst''], Dir)])
   \<and> make_parents (str ''dst/a/c.txt'') [([str ''dst''], Dir)]
       = (Ok (), [([str ''dst''], Dir), ([str ''dst'', str ''a''], Dir)])"
  by code_simp

text \<open>
  C6, as stated, fails. On the concrete tree the answer \<open>n\<close> ends the process with
  exit status 0, and so does the answer \<open>y\<close>: the status of a cancelled review is
  not different from that of a commit.
\<close>

theorem cancel_exit_status_counterexample:
  "exit_status (fst (interactive_check sha1_ex (str ''d'') (str ''n'') world_ex)) = 0
   \<and> exit_status (fst (interactive_check sha1_ex (str ''d'') (str ''y'') world_ex)) = 0"
proof -
  obtain w1 where c: "check sha1_ex (str ''d'') True world_ex = (Ok diff_ex, w1)"
    using check_ex_True by (cases "check sha1_ex (str ''d'') True world_ex") simp
  have "fst (interactive_check sha1_ex (str ''d'') (str ''n'') world_ex) = Raise (SystemExit 0)"
    using interactive_check_canceled(1)[OF c not_affirmative_n] .
  then show ?thesis using commit_ex by (simp add: exit_status_def)
qed

text \<open>
  C6, as amended. For every input line that does not begin with \<open>y\<close> or \<open>Y\<close>,
  \<open>interactive_check\<close> leaves the file system as it was; when the check itself raises,
  that exception is the outcome, and otherwise the outcome is \<open>exit(0)\<close>, exit status
  0, after the line \<open>Canceled.\<close> has been printed last.
\<close>

theorem cancel_exits_with_status_zero:
  assumes "\<not> (startswith commit (str ''y'') \<or> startswith commit (str ''Y''))"
  shows "files (snd (interactive_check sha1 directory commit w)) = files w
       \<and> (case fst (check sha1 directory True w) of
            Raise e \<Rightarrow> fst (interactive_check sha1 directory commit w) = Raise e
          | Ok r \<Rightarrow>
              fst (interactive_check sha1 directory commit w) = Raise (SystemExit 0)
              \<and> exit_status (fst (interactive_check sha1 directory commit w)) = 0
              \<and> last (stdout (snd (interactive_check sha1 directory commit w))) = str ''Canceled.'')"
proof -
  obtain r w1 where c: "check sha1 directory True w = (r, w1)" by (cases "check sha1 directory True w")
  show ?thesis
  proof (cases r)
    case (Ok d)
    note ic = interactive_check_canceled[OF c[unfolded Ok] assms]
    show ?thesis using ic c Ok by (simp add: exit_status_def)
  next
    case (Raise e)
    with c have "interactive_check sha1 directory commit w = (Raise e, w1)"
      using interactive_check_raises by blast
    then show ?thesis using check_files_unchanged[of sha1 directory True w] c Raise by simp
  qed
qed

theorem cancel_exits_with_status_zero_witness:
  "files (snd (interactive_check sha1_ex (str ''d'') (str ''n'') world_ex)) = files world_ex
   \<and> fst (interactive_check sha1_ex (str ''d'') (str ''n'') world_ex) = Raise (SystemExit 0)
   \<and> exit_status (fst (interactive_check sha1_ex (str ''d'') (str ''n'') world_ex)) = 0
   \<and> last (stdout (snd (interactive_check sha1_ex (str ''d'') (str ''n'') world_ex))) = str ''Canceled.''"
  using cancel_exits_with_status_zero[OF not_affirmative_n, of sha1_ex "str ''d''" world_ex]
  by (simp add: check_ex_True exit_status_def)




text \<open>
  C8 (the code at a failing input). With the subcommand \<open>foo\<close> the script raises
  NameError and prints nothing, so no usage message appears; the exit status is 1.
  With no subcommand at all it prints the usage message and exits with status 1.
\<close>

theorem unknown_subcommand_raises_NameError:
  "main sha1 [str ''freeze.py'', str ''foo''] commit w = (Raise NameError, w)
   \<and> stdout (snd (main sha1 [str ''freeze.py'', str ''foo''] commit w)) = stdout w
   \<and> exit_status (fst (main sha1 [str ''freeze.py'', str ''foo''] commit w)) = 1
   \<and> main sha1 [str ''freeze.py''] commit w
       = (Raise (SystemExit 1),
          py_print [str ''Usage: freeze.py replicate [src] [dst]'']
            (py_print [str ''Usage: freeze.py check [directory]''] w))"
  by (simp add: main_def usage_exit_def usage_def exit_status_def str_def)

text \<open>
  C9, as stated, fails: such a file can be tracked. In \<open>listed_ex\<close> the sidecar file
  of \<open>d\<close> lists \<open>x.sha1sums\<close>, a file of \<open>d\<close>, and \<open>check\<close> returns a database with
  that key. In \<open>trailing_ex\<close> the directory holds \<open>x.sha1sums\<close> and a file with that
  name and a space at its end; the commit writes the name with the space, and the check
  that follows reads the key \<open>x.sha1sums\<close> from the sidecar file.
\<close>

theorem sidecar_names_counterexample:
  "valid_fs (files listed_ex)
   \<and> [str ''x.sha1sums''] \<in> set (walk_files (files listed_ex) (str ''d''))
   \<and> fst (check sha1_ex (str ''d'') True listed_ex) = Ok listed_diff
   \<and> str ''x.sha1sums'' \<in> fst ` set (db listed_diff)
   \<and> valid_fs (files trailing_ex)
   \<and> [str ''x.sha1sums''] \<in> set (walk_files (files trailing_ex) (str ''d''))
   \<and> fst (interactive_check sha1_ex (str ''d'') (str ''y'') trailing_ex) = Ok ()
   \<and> fst (check sha1_ex (str ''d'') True
            (snd (interactive_check sha1_ex (str ''d'') (str ''y'') trailing_ex)))
       = Ok trailing_diff
   \<and> str ''x.sha1sums'' \<in> fst ` set (db trailing_diff)"
proof -
  let ?r = "\<lparr>db = [], deletions = [],
             additions = [(str ''x.sha1sums '', hexdigest (sha1_ex (str ''x'')))], changes = []\<rparr>"
  let ?t' = "files trailing_ex @ [([str ''d'', str ''.sha1sums''],
                File (db_text [(str ''x.sha1sums '', hexdigest (sha1_ex (str ''x'')))]))]"
  have y: "startswith (str ''y'') (str ''y'') \<or> startswith (str ''y'') (str ''Y'')"
    using commit_ex_parts by blast
  have dk: "del_keys (deletions ?r) (set_keys (changes ?r) (set_keys (additions ?r) (db ?r)))
              = Inr [(str ''x.sha1sums '', hexdigest (sha1_ex (str ''x'')))]"
    using trailing_ex_parts by simp
  have ow: "open_write (files trailing_ex) (os_path_join (str ''d'') (str ''.sha1sums''))
              (db_text [(str ''x.sha1sums '', hexdigest (sha1_ex (str ''x'')))]) = Inr ?t'"
    using trailing_ex_parts by blast
  note run = interactive_check_commit_run[OF trailing_ex_first_check y dk ow]
  have "fst (check sha1_ex (str ''d'') True
              (snd (interactive_check sha1_ex (str ''d'') (str ''y'') trailing_ex)))
        = fst (check sha1_ex (str ''d'') True \<lparr>files = ?t', stdout = []\<rparr>)"
    by (rule check_result_files_only) (simp add: run(2))
  then have 2: "fst (check sha1_ex (str ''d'') True
              (snd (interactive_check sha1_ex (str ''d'') (str ''y'') trailing_ex))) = Ok trailing_diff"
    using trailing_ex_second_check by simp
  have 3: "str ''x.sha1sums'' \<in> fst ` set (db trailing_diff)" by (simp add: trailing_diff_def)
  show ?thesis using listed_ex_check trailing_ex_parts run(1) 2 3 by blast
qed

text \<open>
  C9, as amended. A regular file, at any depth below the directory, whose name ends
  with \<open>.sha1sums\<close> or \<open>.sha1sums_new\<close> is not in the file list that \<open>check\<close> hashes,
  and its path is neither among the additions nor among the changes. When its path is
  a key of the database that \<open>check\<close> returns, the path is among the deletions, the
  tree is dirty, and \<open>replicate\<close> from or to the directory leaves the file system as
  it was. In every case \<open>replicate\<close> from the directory changes the file system only
  where the copies of the other keys of the database land, and at the sidecar file of
  the destination.
\<close>

theorem sidecar_names_are_never_scanned:
  assumes "rel \<in> set (walk_files (files w) directory)"
    and "endswith (last rel) (str ''.sha1sums'') \<or> endswith (last rel) (str ''.sha1sums_new'')"
    and "fst (check sha1 directory log w) = Ok r"
  shows "join_with [SLASH] rel \<notin> set (filelist_of (files w) directory)
       \<and> join_with [SLASH] rel \<notin> fst ` set (additions r)
       \<and> join_with [SLASH] rel \<notin> fst ` set (changes r)
       \<and> (join_with [SLASH] rel \<in> fst ` set (db r) \<longrightarrow>
            join_with [SLASH] rel \<in> set (deletions r) \<and> is_dirty r
          \<and> (\<forall>other. files (snd (replicate_fs sha1 directory other w)) = files w
                     \<and> files (snd (replicate_fs sha1 other directory w)) = files w))
       \<and> (\<forall>dst. within ((\<Union>f \<in> fst ` set (db r) - {join_with [SLASH] rel}. copy_keys directory dst f)
                          \<union> {k. resolve (os_path_join dst (str ''.sha1sums'')) = Some k})
                   (files w) (files (snd (replicate_fs sha1 directory dst w))))"
proof -
  let ?p = "join_with [SLASH] rel"
  obtain w' where c: "check sha1 directory log w = (Ok r, w')"
    using assms(3) by (cases "check sha1 directory log w") simp
  have ct: "fst (check sha1 directory True w) = Ok r"
    using check_result_files_only[of w w sha1 directory True log] assms(3) by simp
  have "rel \<noteq> []" using assms(1) by (rule walk_files_nonempty)
  then have "tracked_name ?p = tracked_name (last rel)" by (rule tracked_name_join_with)
  then have "\<not> tracked_name ?p" using assms(2) by (auto simp: tracked_name_def)
  then have 1: "?p \<notin> set (filelist_of (files w) directory)" using filelist_of_tracked by blast
  have 2: "?p \<notin> fst ` set (additions r)"
    using 1 by (simp add: check_Ok(2)[OF c] fst_set_new_files)
  have 3: "?p \<notin> fst ` set (changes r)"
    using 1 by (simp add: check_Ok(3)[OF c] fst_set_changed_files)
  have still: "files (snd (replicate_fs sha1 directory other w)) = files w
             \<and> files (snd (replicate_fs sha1 other directory w)) = files w"
    if k: "?p \<in> fst ` set (db r)" for other
  proof -
    have "?p \<in> set (deletions r)" using k 1 by (simp add: check_Ok(4)[OF c])
    then have d: "is_dirty r" by (cases "deletions r") (auto simp: is_dirty_def)
    have "\<not> gates_pass sha1 directory other w"
      using ct d by (simp add: gates_pass_def split: result.splits)
    moreover have "\<not> gates_pass sha1 other directory w"
      using ct d by (simp add: gates_pass_def split: result.splits)
    ultimately show ?thesis using replicate_fs_gates by blast
  qed
  have 4: "?p \<in> fst ` set (db r) \<longrightarrow>
            ?p \<in> set (deletions r) \<and> is_dirty r
          \<and> (\<forall>other. files (snd (replicate_fs sha1 directory other w)) = files w
                     \<and> files (snd (replicate_fs sha1 other directory w)) = files w)"
  proof (rule impI)
    assume k: "?p \<in> fst ` set (db r)"
    have dl: "?p \<in> set (deletions r)" using k 1 by (simp add: check_Ok(4)[OF c])
    then have d: "is_dirty r" by (cases "deletions r") (auto simp: is_dirty_def)
    show "?p \<in> set (deletions r) \<and> is_dirty r
          \<and> (\<forall>other. files (snd (replicate_fs sha1 directory other w)) = files w
                     \<and> files (snd (replicate_fs sha1 other directory w)) = files w)"
      using dl d still[OF k] by blast
  qed
  have 5: "within ((\<Union>f \<in> fst ` set (db r) - {?p}. copy_keys directory dst f)
                          \<union> {k. resolve (os_path_join dst (str ''.sha1sums'')) = Some k})
                   (files w) (files (snd (replicate_fs sha1 directory dst w)))" for dst
  proof (cases "?p \<in> fst ` set (db r)")
    case True
    show ?thesis unfolding conjunct1[OF still[OF True]] by (rule within_refl)
  next
    case False
    then have "fst ` set (db r) - {?p} = fst ` set (db r)" by blast
    then show ?thesis using within_replicate_fs[OF ct, of dst] by simp
  qed
  show ?thesis using 1 2 3 4 5 by blast
qed

theorem sidecar_names_are_never_scanned_witness:
  "str ''x.sha1sums'' \<notin> set (filelist_of (files listed_ex) (str ''d''))
   \<and> str ''x.sha1sums'' \<notin> fst ` set (additions listed_diff)
   \<and> str ''x.sha1sums'' \<notin> fst ` set (changes listed_diff)
   \<and> str ''x.sha1sums'' \<in> set (deletions listed_diff)
   \<and> is_dirty listed_diff
   \<and> files (snd (replicate_fs sha1_ex (str ''d'') (str ''backup'') listed_ex)) = files listed_ex
   \<and> files (snd (replicate_fs sha1_ex (str ''backup'') (str ''d'') listed_ex)) = files listed_ex
   \<and> join_with [SLASH] [str ''sub'', str ''x.sha1sums''] \<notin> set (filelist_of (files world_ex) (str ''d''))
   \<and> join_with [SLASH] [str ''sub'', str ''x.sha1sums''] \<notin> fst ` set (additions diff_ex)
   \<and> join_with [SLASH] [str ''sub'', str ''x.sha1sums''] \<notin> fst ` set (changes diff_ex)"
proof -
  have l: "[str ''x.sha1sums''] \<in> set (walk_files (files listed_ex) (str ''d''))"
    "endswith (last [str ''x.sha1sums'']) (str ''.sha1sums'')
     \<or> endswith (last [str ''x.sha1sums'']) (str ''.sha1sums_new'')"
    "fst (check sha1_ex (str ''d'') True listed_ex) = Ok listed_diff"
    using listed_ex_check by blast+
  have j: "join_with [SLASH] [str ''x.sha1sums''] = str ''x.sha1sums''"
    and k: "str ''x.sha1sums'' \<in> fst ` set (db listed_diff)"
    using listed_ex_check by blast+
  note a = sidecar_names_are_never_scanned[OF l, unfolded j]
  have s: "[str ''sub'', str ''x.sha1sums''] \<in> set (walk_files (files world_ex) (str ''d''))"
    "endswith (last [str ''sub'', str ''x.sha1sums'']) (str ''.sha1sums'')
     \<or> endswith (last [str ''sub'', str ''x.sha1sums'']) (str ''.sha1sums_new'')"
    using stray_ex by blast+
  note b = sidecar_names_are_never_scanned[OF s check_ex_True]
  show ?thesis using a k b by blast
qed

text \<open>
  C10. \<open>check\<close> leaves the file system as it was. So does \<open>interactive_check\<close>
  unless the input line begins with \<open>y\<close> or \<open>Y\<close>, and so does \<open>replicate\<close> unless
  both checks return and neither tree is dirty.
\<close>

theorem check_only_reads:
  "files (snd (check sha1 directory log w)) = files w
   \<and> (\<not> (startswith commit (str ''y'') \<or> startswith commit (str ''Y'')) \<longrightarrow>
        files (snd (interactive_check sha1 directory commit w)) = files w)
   \<and> (\<not> gates_pass sha1 src dst w \<longrightarrow>
        files (snd (replicate_fs sha1 src dst w)) = files w)"
proof (intro conjI impI)
  show "files (snd (check sha1 directory log w)) = files w" by (rule check_files_unchanged)
next
  assume n: "\<not> (startswith commit (str ''y'') \<or> startswith commit (str ''Y''))"
  obtain r w1 where c: "check sha1 directory True w = (r, w1)" by (cases "check sha1 directory True w")
  show "files (snd (interactive_check sha1 directory commit w)) = files w"
  proof (cases r)
    case (Ok d)
    with c n show ?thesis using interactive_check_canceled(2) by blast
  next
    case (Raise e)
    with c have "interactive_check sha1 directory commit w = (Raise e, w1)"
      using interactive_check_raises by blast
    then show ?thesis using check_files_unchanged[of sha1 directory True w] c by simp
  qed
next
  assume "\<not> gates_pass sha1 src dst w"
  then show "files (snd (replicate_fs sha1 src dst w)) = files w" by (rule replicate_fs_gates)
qed

theorem check_only_reads_witness:
  "files (snd (check sha1_ex (str ''d'') True world_ex)) = files world_ex
   \<and> files (snd (interactive_check sha1_ex (str ''d'') (str ''n'') world_ex)) = files world_ex
   \<and> files (snd (replicate_fs sha1_ex (str ''d'') (str ''backup'') world_ex)) = files world_ex"
  using check_only_reads[of sha1_ex "str ''d''" True world_ex "str ''n''" "str ''d''" "str ''backup''"]
        not_affirmative_n gates_closed_ex
  by blast

end
